theory Spec2Isabelle
  imports Main "HOL-Library.AList"
begin

section \<open>The term language: printer, tokenizer and parser\<close>

text \<open>
  Embedding of \<^verbatim>\<open>language.ts\<close>. A JavaScript string is a \<open>string\<close>; the
  exceptions thrown by the parser are values of \<open>parse_error\<close>, one constructor per
  \<^verbatim>\<open>throw\<close> of the source.
\<close>

datatype Term = Term (term_op: string) (term_children: "Term list")

datatype Pattern = Var string | Node string "Pattern list"

datatype Sexp = Atom string | SList "Sexp list"

datatype parse_error =
    UnexpectedEnd
  | UnexpectedClose
  | ExpectedClose
  | ExpectedOperator
  | OperatorNotAtom
  | UnexpectedTokens

text \<open>\<^verbatim>\<open>xs.join(" ")\<close>\<close>

fun join_sp :: "string list \<Rightarrow> string" where
  "join_sp [] = []"
| "join_sp [x] = x"
| "join_sp (x # y # ys) = x @ '' '' @ join_sp (y # ys)"

fun printTerm :: "Term \<Rightarrow> string" where
  "printTerm (Term opr cs) =
     (if length cs = 0 then opr
      else ''('' @ opr @ '' '' @ join_sp (map printTerm cs) @ '')'')"

fun printPattern :: "Pattern \<Rightarrow> string" where
  "printPattern (Var name) = ''?'' @ name"
| "printPattern (Node opr cs) =
     (if length cs = 0 then opr
      else ''('' @ opr @ '' '' @ join_sp (map printPattern cs) @ '')'')"

text \<open>
  The class \<^verbatim>\<open>\s\<close> of the tokenizer's regular expression, on the code units
  that fit a \<open>char\<close>: tab, line feed, vertical tab, form feed, carriage return, space
  and the no-break space.
\<close>

definition is_space :: "char \<Rightarrow> bool" where
  "is_space c \<longleftrightarrow> of_char c \<in> {9, 10, 11, 12, 13, 32, 160 :: nat}"

definition is_paren :: "char \<Rightarrow> bool" where
  "is_paren c \<longleftrightarrow> c = CHR ''('' \<or> c = CHR '')''"

definition flush :: "string \<Rightarrow> string list" where
  "flush acc = (if acc = [] then [] else [acc])"

text \<open>
  \<^verbatim>\<open>input.match(/[()]|[^\s()]+/g) ?? []\<close>: every parenthesis is a token, every
  maximal run of characters that are neither white space nor parentheses is a token.
  The first argument is the run read so far.
\<close>

fun scan :: "string \<Rightarrow> string \<Rightarrow> string list" where
  "scan acc [] = flush acc"
| "scan acc (c # cs) =
     (if is_paren c then flush acc @ [c] # scan [] cs
      else if is_space c then flush acc @ scan [] cs
      else scan (acc @ [c]) cs)"

definition tokenize :: "string \<Rightarrow> string list" where
  "tokenize input = scan [] input"

text \<open>
  \<^verbatim>\<open>parseSexp(tokens, pos)\<close> and its \<^verbatim>\<open>while\<close> loop (\<open>parseList\<close>, with
  the loop variables \<open>i\<close> and \<open>list\<close>). The first argument bounds the number of
  nested calls and loop iterations; \<open>None\<close> is returned when it is used up.
\<close>

fun parseSexp :: "nat \<Rightarrow> string list \<Rightarrow> nat \<Rightarrow> (parse_error + Sexp \<times> nat) option"
  and parseList :: "nat \<Rightarrow> string list \<Rightarrow> nat \<Rightarrow> Sexp list \<Rightarrow> (parse_error + Sexp \<times> nat) option"
where
  "parseSexp 0 tokens pos = None"
| "parseSexp (Suc f) tokens pos =
     (if pos \<ge> length tokens then Some (Inl UnexpectedEnd)
      else let token = tokens ! pos in
        if token = '')'' then Some (Inl UnexpectedClose)
        else if token \<noteq> ''('' then Some (Inr (Atom token, pos + 1))
        else parseList f tokens (pos + 1) [])"
| "parseList 0 tokens i list = None"
| "parseList (Suc f) tokens i list =
     (if i < length tokens \<and> tokens ! i \<noteq> '')'' then
        (case parseSexp f tokens i of
           None \<Rightarrow> None
         | Some (Inl e) \<Rightarrow> Some (Inl e)
         | Some (Inr (elem, next)) \<Rightarrow> parseList f tokens next (list @ [elem]))
      else if i \<ge> length tokens then Some (Inl ExpectedClose)
      else Some (Inr (SList list, i + 1)))"

text \<open>
  The result of \<^verbatim>\<open>tail.map(f)\<close> for an \<open>f\<close> that may throw: the array of
  results, or the first exception.
\<close>

fun sequence_err :: "('e + 'b) list \<Rightarrow> 'e + 'b list" where
  "sequence_err [] = Inr []"
| "sequence_err (r # rs) =
     (case r of
        Inl e \<Rightarrow> Inl e
      | Inr y \<Rightarrow> (case sequence_err rs of Inl e \<Rightarrow> Inl e | Inr ys \<Rightarrow> Inr (y # ys)))"

fun sexpToTerm :: "Sexp \<Rightarrow> parse_error + Term" where
  "sexpToTerm (Atom s) = Inr (Term s [])"
| "sexpToTerm (SList []) = Inl ExpectedOperator"
| "sexpToTerm (SList (SList l # tail)) = Inl OperatorNotAtom"
| "sexpToTerm (SList (Atom head # tail)) =
     (case sequence_err (map sexpToTerm tail) of
        Inl e \<Rightarrow> Inl e
      | Inr cs \<Rightarrow> Inr (Term head cs))"

definition startsWithQ :: "string \<Rightarrow> bool" where
  "startsWithQ s = (case s of [] \<Rightarrow> False | c # _ \<Rightarrow> c = CHR ''?'')"

fun sexpToPattern :: "Sexp \<Rightarrow> parse_error + Pattern" where
  "sexpToPattern (Atom s) =
     (if startsWithQ s then Inr (Var (drop 1 s)) else Inr (Node s []))"
| "sexpToPattern (SList []) = Inl ExpectedOperator"
| "sexpToPattern (SList (SList l # tail)) = Inl OperatorNotAtom"
| "sexpToPattern (SList (Atom head # tail)) =
     (case sequence_err (map sexpToPattern tail) of
        Inl e \<Rightarrow> Inl e
      | Inr cs \<Rightarrow> Inr (Node head cs))"

definition parse_fuel :: "string list \<Rightarrow> nat" where
  "parse_fuel tokens = 2 * length tokens + 1"

definition parseTerm :: "string \<Rightarrow> (parse_error + Term) option" where
  "parseTerm input =
     (let tokens = tokenize input in
      case parseSexp (parse_fuel tokens) tokens 0 of
        None \<Rightarrow> None
      | Some (Inl e) \<Rightarrow> Some (Inl e)
      | Some (Inr (sexp, pos)) \<Rightarrow>
          if pos < length tokens then Some (Inl UnexpectedTokens)
          else Some (sexpToTerm sexp))"

definition parsePattern :: "string \<Rightarrow> (parse_error + Pattern) option" where
  "parsePattern input =
     (let tokens = tokenize input in
      case parseSexp (parse_fuel tokens) tokens 0 of
        None \<Rightarrow> None
      | Some (Inl e) \<Rightarrow> Some (Inl e)
      | Some (Inr (sexp, pos)) \<Rightarrow>
          if pos < length tokens then Some (Inl UnexpectedTokens)
          else Some (sexpToPattern sexp))"


subsection \<open>Well-formed trees and their token sequences\<close>

text \<open>
  A well-formed atom is a non-empty run of characters that the tokenizer keeps together.
  A well-formed term has well-formed operators; a well-formed pattern has variable names
  of atom characters, well-formed operators, and no leaf operator that starts with a
  question mark (such a leaf prints like a variable).
\<close>

definition atom_char :: "char \<Rightarrow> bool" where
  "atom_char c \<longleftrightarrow> \<not> is_space c \<and> \<not> is_paren c"

definition wf_atom :: "string \<Rightarrow> bool" where
  "wf_atom s \<longleftrightarrow> s \<noteq> [] \<and> list_all atom_char s"

fun wf_term :: "Term \<Rightarrow> bool" where
  "wf_term (Term opr cs) \<longleftrightarrow> wf_atom opr \<and> list_all wf_term cs"

fun wf_pattern :: "Pattern \<Rightarrow> bool" where
  "wf_pattern (Var name) \<longleftrightarrow> list_all atom_char name"
| "wf_pattern (Node opr cs) \<longleftrightarrow>
     wf_atom opr \<and> (cs = [] \<longrightarrow> \<not> startsWithQ opr) \<and> list_all wf_pattern cs"

fun wf_sexp :: "Sexp \<Rightarrow> bool" where
  "wf_sexp (Atom s) \<longleftrightarrow> wf_atom s"
| "wf_sexp (SList es) \<longleftrightarrow> list_all wf_sexp es"

fun toks :: "Sexp \<Rightarrow> string list" where
  "toks (Atom s) = [s]"
| "toks (SList es) = ''('' # concat (map toks es) @ ['')'']"

fun sexp_of_term :: "Term \<Rightarrow> Sexp" where
  "sexp_of_term (Term opr cs) =
     (if cs = [] then Atom opr else SList (Atom opr # map sexp_of_term cs))"

fun sexp_of_pattern :: "Pattern \<Rightarrow> Sexp" where
  "sexp_of_pattern (Var name) = Atom (''?'' @ name)"
| "sexp_of_pattern (Node opr cs) =
     (if cs = [] then Atom opr else SList (Atom opr # map sexp_of_pattern cs))"


definition delim :: "string \<Rightarrow> bool" where
  "delim rest \<longleftrightarrow> (case rest of [] \<Rightarrow> True | c # _ \<Rightarrow> is_space c \<or> is_paren c)"


section \<open>Results of operations that may throw\<close>

text \<open>
  \<open>TypeError\<close>: a property of \<^verbatim>\<open>undefined\<close> is read (a \<^verbatim>\<open>classes.get(id)!\<close>
  that found nothing). \<open>ExtractFailure\<close>: the \<^verbatim>\<open>throw new Error()\<close> of the
  extractor. \<open>BadKey\<close> and \<open>UnboundVariable\<close> mark the two places where the model stops
  and the source goes on with \<^verbatim>\<open>undefined\<close> as an e-class id: \<^verbatim>\<open>find\<close> of a
  number that is no key of the union-find, and \<^verbatim>\<open>addPattern\<close> of a variable that
  the substitution does not bind. \<open>OutOfFuel\<close> is not a result of the source: it marks a
  recursion that did not end within its bound.
\<close>

datatype error = TypeError | BadKey | UnboundVariable | ExtractFailure

datatype 'a res = Ok 'a | Err error | OutOfFuel

fun bnd :: "'a res \<Rightarrow> ('a \<Rightarrow> 'b res) \<Rightarrow> 'b res" where
  "bnd (Ok x) f = f x"
| "bnd (Err e) f = Err e"
| "bnd OutOfFuel f = OutOfFuel"

section \<open>Immutable collections\<close>

text \<open>
  The \<^verbatim>\<open>Map\<close> and \<^verbatim>\<open>Set\<close> of the \<^verbatim>\<open>immutable\<close> package, as lists of
  entries. \<^verbatim>\<open>AList.update\<close> is \<^verbatim>\<open>set\<close>. Which keys a collection holds and what
  a lookup returns is as in the package for collections of every size. The order of the
  list is the iteration order of the package only for a collection that has never held
  more than 8 entries, which the package keeps in an array: \<^verbatim>\<open>set\<close> of a present key
  replaces the entry where it stands, \<^verbatim>\<open>set\<close> of a new key appends, \<^verbatim>\<open>delete\<close>
  moves the last entry into the place of the deleted one. A larger collection is
  iterated by the package in the order of its hash trie, which the lists do not follow.
  So a statement below that depends on the order in which entries are visited is made
  only of a run whose collections stay within 8 entries; the statements about all
  e-graphs speak of lookups, of sets of keys, of numbers of entries and of the union-find
  only.
\<close>

definition map_delete :: "'k \<Rightarrow> ('k \<times> 'v) list \<Rightarrow> ('k \<times> 'v) list" where
  "map_delete k m =
     (if k \<notin> fst ` set m then m
      else let i = length (takeWhile (\<lambda>e. fst e \<noteq> k) m)
           in if i = length m - 1 then butlast m else (butlast m)[i := last m])"

definition map_concat :: "('k \<times> 'v) list \<Rightarrow> ('k \<times> 'v) list \<Rightarrow> ('k \<times> 'v) list" where
  "map_concat m other = foldl (\<lambda>acc (k, v). AList.update k v acc) m other"

definition set_add :: "'a \<Rightarrow> 'a list \<Rightarrow> 'a list" where
  "set_add x s = (if x \<in> set s then s else s @ [x])"

definition set_union :: "'a list \<Rightarrow> 'a list \<Rightarrow> 'a list" where
  "set_union s other = foldl (\<lambda>acc x. set_add x acc) s other"

section \<open>Union-find\<close>

text \<open>Embedding of \<^verbatim>\<open>union-find.ts\<close>: the two arrays of the class.\<close>

record UnionFind =
  parent :: "nat list"
  rank :: "nat list"

definition new_UnionFind :: UnionFind where
  "new_UnionFind = \<lparr>parent = [], rank = []\<rparr>"

text \<open>
  \<^verbatim>\<open>find\<close> with its path compression, on the array \<open>parent\<close>. The first argument
  bounds the depth of the recursion.
\<close>

fun find_f :: "nat \<Rightarrow> nat list \<Rightarrow> nat \<Rightarrow> (nat list \<times> nat) res" where
  "find_f 0 p x = OutOfFuel"
| "find_f (Suc n) p x =
     (if x \<ge> length p then Err BadKey
      else if p ! x \<noteq> x then
        bnd (find_f n p (p ! x)) (\<lambda>(p', r). Ok (p'[x := r], r))
      else Ok (p, x))"

definition find :: "UnionFind \<Rightarrow> nat \<Rightarrow> (UnionFind \<times> nat) res" where
  "find uf x =
     bnd (find_f (Suc (length (parent uf))) (parent uf) x) (\<lambda>(p', r). Ok (uf\<lparr>parent := p'\<rparr>, r))"

text \<open>\<^verbatim>\<open>find(undefined)\<close> returns \<^verbatim>\<open>undefined\<close> and changes nothing.\<close>

definition find_opt :: "UnionFind \<Rightarrow> nat option \<Rightarrow> (UnionFind \<times> nat option) res" where
  "find_opt uf x =
     (case x of
        None \<Rightarrow> Ok (uf, None)
      | Some k \<Rightarrow> bnd (find uf k) (\<lambda>(uf', r). Ok (uf', Some r)))"

text \<open>\<^verbatim>\<open>union\<close>: \<open>None\<close> is \<^verbatim>\<open>null\<close>, \<open>Some (root, child)\<close> the object returned.\<close>

definition union :: "UnionFind \<Rightarrow> nat \<Rightarrow> nat \<Rightarrow> (UnionFind \<times> (nat \<times> nat) option) res" where
  "union uf x y =
     bnd (find uf x) (\<lambda>(uf1, rootX).
     bnd (find uf1 y) (\<lambda>(uf2, rootY).
       if rootX = rootY then Ok (uf2, None)
       else if rank uf2 ! rootX < rank uf2 ! rootY then
         Ok (uf2\<lparr>parent := (parent uf2)[rootX := rootY]\<rparr>, Some (rootY, rootX))
       else if rank uf2 ! rootX > rank uf2 ! rootY then
         Ok (uf2\<lparr>parent := (parent uf2)[rootY := rootX]\<rparr>, Some (rootX, rootY))
       else
         Ok (uf2\<lparr>parent := (parent uf2)[rootY := rootX],
                  rank := (rank uf2)[rootX := rank uf2 ! rootX + 1]\<rparr>, Some (rootX, rootY))))"

definition connected :: "UnionFind \<Rightarrow> nat \<Rightarrow> nat \<Rightarrow> (UnionFind \<times> bool) res" where
  "connected uf x y =
     bnd (find uf x) (\<lambda>(uf1, rx).
     bnd (find uf1 y) (\<lambda>(uf2, ry). Ok (uf2, rx = ry)))"

text \<open>\<^verbatim>\<open>extend\<close> (the name \<open>extend\<close> is taken by the record package).\<close>

definition uf_extend :: "UnionFind \<Rightarrow> UnionFind \<times> nat" where
  "uf_extend uf =
     (let newKey = length (parent uf)
      in (uf\<lparr>parent := parent uf @ [newKey], rank := rank uf @ [0]\<rparr>, newKey))"

section \<open>The e-graph\<close>

text \<open>
  Embedding of \<^verbatim>\<open>egraph.ts\<close>. An \<^verbatim>\<open>ENode\<close> is an immutable record compared by
  value. An \<^verbatim>\<open>EClass\<close> object is created by \<^verbatim>\<open>add\<close>, stored in \<^verbatim>\<open>classes\<close>
  under the fresh id of that call and under no other key, and leaves \<^verbatim>\<open>classes\<close>
  only by the \<^verbatim>\<open>delete\<close> of \<^verbatim>\<open>merge\<close>; so an object is named by its id, an
  assignment to a field of an object that is in \<^verbatim>\<open>classes\<close> is an update of its
  entry, and an assignment to an object that has left \<^verbatim>\<open>classes\<close> is not observable.
  A value of \<^verbatim>\<open>hashcons\<close> is an id or \<^verbatim>\<open>undefined\<close> (\<open>None\<close>).
\<close>

datatype ENode = ENode (en_op: string) (en_children: "nat list")

record EClass =
  nodes :: "ENode list"
  originalNode :: ENode
  parents :: "(ENode \<times> nat) list"

definition createSingletonEClass :: "ENode \<Rightarrow> EClass" where
  "createSingletonEClass enode = \<lparr>nodes = [enode], originalNode = enode, parents = []\<rparr>"

record EGraph =
  unionFind :: UnionFind
  classes :: "(nat \<times> EClass) list"
  hashcons :: "(ENode \<times> nat option) list"

definition new_EGraph :: EGraph where
  "new_EGraph = \<lparr>unionFind = new_UnionFind, classes = [], hashcons = []\<rparr>"

definition classCount :: "EGraph \<Rightarrow> nat" where
  "classCount g = length (classes g)"

definition nodeCount :: "EGraph \<Rightarrow> nat" where
  "nodeCount g = length (hashcons g)"

text \<open>\<^verbatim>\<open>ids.map((eid) => this.unionFind.find(eid))\<close>, from left to right.\<close>

fun find_all :: "UnionFind \<Rightarrow> nat list \<Rightarrow> (UnionFind \<times> nat list) res" where
  "find_all uf [] = Ok (uf, [])"
| "find_all uf (c # cs) =
     bnd (find uf c) (\<lambda>(uf1, r).
     bnd (find_all uf1 cs) (\<lambda>(uf2, rs). Ok (uf2, r # rs)))"

definition canonicalize :: "UnionFind \<Rightarrow> ENode \<Rightarrow> (UnionFind \<times> ENode) res" where
  "canonicalize uf enode =
     bnd (find_all uf (en_children enode)) (\<lambda>(uf', cs). Ok (uf', ENode (en_op enode) cs))"

text \<open>The loop of \<^verbatim>\<open>add\<close> over the children of the new node.\<close>

fun add_parents :: "(nat \<times> EClass) list \<Rightarrow> nat list \<Rightarrow> ENode \<Rightarrow> nat \<Rightarrow> (nat \<times> EClass) list res" where
  "add_parents cls [] enode eid = Ok cls"
| "add_parents cls (child_id # cs) enode eid =
     (case map_of cls child_id of
        None \<Rightarrow> Err TypeError
      | Some child \<Rightarrow>
          add_parents
            (AList.update child_id (child\<lparr>parents := AList.update enode eid (parents child)\<rparr>) cls)
            cs enode eid)"

definition add :: "EGraph \<Rightarrow> ENode \<Rightarrow> (EGraph \<times> nat) res" where
  "add g enode0 =
     bnd (canonicalize (unionFind g) enode0) (\<lambda>(uf1, enode).
       case map_of (hashcons g) enode of
         Some (Some eid) \<Rightarrow> Ok (g\<lparr>unionFind := uf1\<rparr>, eid)
       | _ \<Rightarrow>
          (let (uf2, eid) = uf_extend uf1;
               hc = AList.update enode (Some eid) (hashcons g);
               cls = AList.update eid (createSingletonEClass enode) (classes g)
           in bnd (add_parents cls (en_children enode) enode eid) (\<lambda>cls'.
                Ok (g\<lparr>unionFind := uf2, classes := cls', hashcons := hc\<rparr>, eid))))"

text \<open>
  \<^verbatim>\<open>merge\<close> and \<^verbatim>\<open>repair\<close>. \<open>repair_f\<close> is the loop of \<^verbatim>\<open>repair\<close> over the
  entries that \<^verbatim>\<open>eclass.parents\<close> held when the loop started; \<open>e\<close> names the object
  \<^verbatim>\<open>eclass\<close> and \<open>dedup\<close> is \<^verbatim>\<open>dedupParents\<close>. The first argument bounds the
  nesting of \<^verbatim>\<open>merge\<close> within \<^verbatim>\<open>repair\<close>. The test \<^verbatim>\<open>if (newParentEid2)\<close> holds
  for an id that is defined and not \<open>0\<close>.
\<close>

fun merge_f :: "nat \<Rightarrow> EGraph \<Rightarrow> nat \<Rightarrow> nat \<Rightarrow> (EGraph \<times> bool) res"
  and repair_f :: "nat \<Rightarrow> EGraph \<Rightarrow> nat \<Rightarrow> (ENode \<times> nat) list \<Rightarrow> (ENode \<times> nat) list \<Rightarrow> EGraph res"
where
  "merge_f fuel g eid1 eid2 =
     bnd (union (unionFind g) eid1 eid2) (\<lambda>(uf1, unionResult).
       case unionResult of
         None \<Rightarrow> Ok (g\<lparr>unionFind := uf1\<rparr>, False)
       | Some (newRootId, oldRootId) \<Rightarrow>
          (let newRoot = map_of (classes g) newRootId;
               oldRoot = map_of (classes g) oldRootId;
               cls1 = map_delete oldRootId (classes g)
           in case oldRoot of
                None \<Rightarrow> Err TypeError
              | Some old \<Rightarrow>
                 (let eid = (case map_of (hashcons g) (originalNode old) of
                               None \<Rightarrow> None | Some v \<Rightarrow> v)
                  in bnd (canonicalize uf1 (originalNode old)) (\<lambda>(uf2, cn).
                     bnd (find_opt uf2 eid) (\<lambda>(uf3, eid').
                       (let hc = AList.update cn eid' (map_delete (originalNode old) (hashcons g))
                        in case newRoot of
                             None \<Rightarrow> Err TypeError
                           | Some new \<Rightarrow>
                              (let new' = new\<lparr>nodes := set_union (nodes new) (nodes old),
                                             parents := map_concat (parents new) (parents old)\<rparr>;
                                   g1 = g\<lparr>unionFind := uf3,
                                          classes := AList.update newRootId new' cls1,
                                          hashcons := hc\<rparr>
                               in case fuel of
                                    0 \<Rightarrow> OutOfFuel
                                  | Suc f \<Rightarrow>
                                      bnd (repair_f f g1 newRootId (parents new') [])
                                        (\<lambda>g2. Ok (g2, True)))))))))"
| "repair_f f g e [] dedup =
     Ok (case map_of (classes g) e of
           None \<Rightarrow> g
         | Some eclass \<Rightarrow> g\<lparr>classes := AList.update e (eclass\<lparr>parents := dedup\<rparr>) (classes g)\<rparr>)"
| "repair_f f g e ((parentENode, parentEClassId) # es) dedup =
     bnd (canonicalize (unionFind g) parentENode) (\<lambda>(uf1, newParentNode).
     bnd (find uf1 parentEClassId) (\<lambda>(uf2, newParentEid).
       (let g1 = g\<lparr>unionFind := uf2,
                   hashcons := AList.update newParentNode (Some newParentEid)
                                 (map_delete parentENode (hashcons g))\<rparr>
        in bnd (case map_of dedup newParentNode of
                  None \<Rightarrow> Ok g1
                | Some newParentEid2 \<Rightarrow>
                    if newParentEid2 \<noteq> 0
                    then bnd (merge_f f g1 parentEClassId newParentEid2) (\<lambda>(g2, _). Ok g2)
                    else Ok g1)
             (\<lambda>g2. repair_f f g2 e es (AList.update newParentNode newParentEid dedup)))))"

definition merge :: "EGraph \<Rightarrow> nat \<Rightarrow> nat \<Rightarrow> (EGraph \<times> bool) res" where
  "merge g eid1 eid2 = merge_f (length (parent (unionFind g))) g eid1 eid2"


text \<open>\<^verbatim>\<open>addTerm\<close> and \<^verbatim>\<open>addPattern\<close>; the second function of each pair is the
  \<^verbatim>\<open>children.map\<close> of the first, from left to right.\<close>

fun addTerm :: "EGraph \<Rightarrow> Term \<Rightarrow> (EGraph \<times> nat) res"
  and addTerms :: "EGraph \<Rightarrow> Term list \<Rightarrow> (EGraph \<times> nat list) res"
where
  "addTerm g (Term opr cs) =
     bnd (addTerms g cs) (\<lambda>(g1, childIds). add g1 (ENode opr childIds))"
| "addTerms g [] = Ok (g, [])"
| "addTerms g (t # ts) =
     bnd (addTerm g t) (\<lambda>(g1, i).
     bnd (addTerms g1 ts) (\<lambda>(g2, is). Ok (g2, i # is)))"

type_synonym subst = "(string \<times> nat) list"

fun addPattern :: "EGraph \<Rightarrow> subst \<Rightarrow> Pattern \<Rightarrow> (EGraph \<times> nat) res"
  and addPatterns :: "EGraph \<Rightarrow> subst \<Rightarrow> Pattern list \<Rightarrow> (EGraph \<times> nat list) res"
where
  "addPattern g sub (Var name) =
     (case map_of sub name of None \<Rightarrow> Err UnboundVariable | Some eid \<Rightarrow> Ok (g, eid))"
| "addPattern g sub (Node opr cs) =
     bnd (addPatterns g sub cs) (\<lambda>(g1, childIds). add g1 (ENode opr childIds))"
| "addPatterns g sub [] = Ok (g, [])"
| "addPatterns g sub (p # ps) =
     bnd (addPattern g sub p) (\<lambda>(g1, i).
     bnd (addPatterns g1 sub ps) (\<lambda>(g2, is). Ok (g2, i # is)))"

text \<open>
  \<^verbatim>\<open>ematch\<close>, run to its end on one e-graph: the list of the pairs it yields, in the
  order it yields them. \<open>worker\<close> is the inner generator; \<open>worker_nodes\<close> is its loop
  over \<^verbatim>\<open>eclass.nodes\<close>, \<open>worker_children\<close> the loop over the zipped children (the
  zip ends with the shorter list), \<open>worker_substs\<close> the \<^verbatim>\<open>flatMap\<close> over the
  substitutions found so far. The e-graph is threaded because \<^verbatim>\<open>find\<close> compresses
  paths.
\<close>

function worker :: "EGraph \<Rightarrow> Pattern \<Rightarrow> nat \<Rightarrow> subst \<Rightarrow> (EGraph \<times> subst list) res"
  and worker_nodes :: "EGraph \<Rightarrow> string \<Rightarrow> Pattern list \<Rightarrow> ENode list \<Rightarrow> subst \<Rightarrow> (EGraph \<times> subst list) res"
  and worker_children :: "EGraph \<Rightarrow> Pattern list \<Rightarrow> nat list \<Rightarrow> subst list \<Rightarrow> (EGraph \<times> subst list) res"
  and worker_substs :: "EGraph \<Rightarrow> Pattern \<Rightarrow> nat \<Rightarrow> subst list \<Rightarrow> (EGraph \<times> subst list) res"
where
  "worker g (Var name) eid0 sub =
     bnd (find (unionFind g) eid0) (\<lambda>(uf1, eid).
       case map_of sub name of
         None \<Rightarrow> Ok (g\<lparr>unionFind := uf1\<rparr>, [AList.update name eid sub])
       | Some entry \<Rightarrow>
           if entry = eid then Ok (g\<lparr>unionFind := uf1\<rparr>, [AList.update name eid sub])
           else Ok (g\<lparr>unionFind := uf1\<rparr>, []))"
| "worker g (Node opr ps) eid0 sub =
     bnd (find (unionFind g) eid0) (\<lambda>(uf1, eid).
       case map_of (classes g) eid of
         None \<Rightarrow> Err TypeError
       | Some eclass \<Rightarrow> worker_nodes (g\<lparr>unionFind := uf1\<rparr>) opr ps (nodes eclass) sub)"
| "worker_nodes g opr ps [] sub = Ok (g, [])"
| "worker_nodes g opr ps (enode # enodes) sub =
     (if opr \<noteq> en_op enode then worker_nodes g opr ps enodes sub
      else
        bnd (worker_children g ps (en_children enode) [sub]) (\<lambda>(g1, substs).
        bnd (worker_nodes g1 opr ps enodes sub) (\<lambda>(g2, rest). Ok (g2, substs @ rest))))"
| "worker_children g [] cs substs = Ok (g, substs)"
| "worker_children g (p # ps) [] substs = Ok (g, substs)"
| "worker_children g (p # ps) (c # cs) substs =
     bnd (worker_substs g p c substs) (\<lambda>(g1, substs'). worker_children g1 ps cs substs')"
| "worker_substs g p c [] = Ok (g, [])"
| "worker_substs g p c (s # ss) =
     bnd (worker g p c s) (\<lambda>(g1, r).
     bnd (worker_substs g1 p c ss) (\<lambda>(g2, rs). Ok (g2, r @ rs)))"
  by pat_completeness auto
termination
  by (relation "inv_image (less_than <*lex*> less_than)
        (\<lambda>x. case x of
           Inl (Inl (g, p, eid, sub)) \<Rightarrow> (size p, 0)
         | Inl (Inr (g, opr, ps, enodes, sub)) \<Rightarrow> (size_list size ps, Suc (length enodes))
         | Inr (Inl (g, ps, cs, substs)) \<Rightarrow> (size_list size ps, 0)
         | Inr (Inr (g, p, c, substs)) \<Rightarrow> (size p, Suc (length substs)))") auto

fun ematch_keys :: "EGraph \<Rightarrow> Pattern \<Rightarrow> nat list \<Rightarrow> (EGraph \<times> (subst \<times> nat) list) res" where
  "ematch_keys g p [] = Ok (g, [])"
| "ematch_keys g p (eid # eids) =
     bnd (worker g p eid []) (\<lambda>(g1, substs).
     bnd (ematch_keys g1 p eids) (\<lambda>(g2, rest). Ok (g2, map (\<lambda>s. (s, eid)) substs @ rest)))"

definition ematch :: "EGraph \<Rightarrow> Pattern \<Rightarrow> (EGraph \<times> (subst \<times> nat) list) res" where
  "ematch g p = ematch_keys g p (map fst (classes g))"

text \<open>
  \<^verbatim>\<open>extractSmallest\<close>. The sizes are JavaScript numbers; \<open>Huge\<close> is
  \<^verbatim>\<open>Number.MAX_VALUE\<close> and \<open>Fin\<close> an integer, which double arithmetic adds and
  subtracts exactly; adding or subtracting an integer leaves \<open>Huge\<close> as it is, and
  \<open>Huge - Huge\<close> is \<open>0\<close>. An integer minus \<open>Huge\<close> and \<open>Huge + Huge\<close> do not
  arise: an accumulated size is \<open>Huge\<close> only under a bound that is \<open>Huge\<close>, and is
  then followed by bounds \<open>Huge - Huge\<close>. The term under construction may hold
  \<^verbatim>\<open>undefined\<close> (\<open>XUndef\<close>), which the worker returns when no node of a class
  succeeded. A \<^verbatim>\<open>throw\<close> inside the worker is the value \<open>Inl\<close>, next to the union-find
  as \<^verbatim>\<open>find\<close> left it; the \<^verbatim>\<open>catch\<close> of the loop over the nodes takes any of them.
\<close>

datatype XTerm = XUndef | XTerm string "XTerm list"

datatype jsnum = Fin int | Huge

fun num_sub :: "jsnum \<Rightarrow> jsnum \<Rightarrow> jsnum" where
  "num_sub (Fin a) (Fin b) = Fin (a - b)"
| "num_sub Huge (Fin b) = Huge"
| "num_sub Huge Huge = Fin 0"
| "num_sub (Fin a) Huge = Fin (- 1)"

fun num_add :: "jsnum \<Rightarrow> jsnum \<Rightarrow> jsnum" where
  "num_add (Fin a) (Fin b) = Fin (a + b)"
| "num_add _ _ = Huge"

fun num_neg :: "jsnum \<Rightarrow> bool" where
  "num_neg (Fin a) = (a < 0)"
| "num_neg Huge = False"

function extract_worker ::
    "nat \<Rightarrow> UnionFind \<Rightarrow> (nat \<times> EClass) list \<Rightarrow> nat list \<Rightarrow> jsnum \<Rightarrow> nat
       \<Rightarrow> (UnionFind \<times> (error + XTerm \<times> jsnum)) res"
  and extract_nodes ::
    "nat \<Rightarrow> UnionFind \<Rightarrow> (nat \<times> EClass) list \<Rightarrow> nat list \<Rightarrow> ENode list \<Rightarrow> XTerm \<Rightarrow> jsnum
       \<Rightarrow> (UnionFind \<times> (error + XTerm \<times> jsnum)) res"
  and extract_children ::
    "nat \<Rightarrow> UnionFind \<Rightarrow> (nat \<times> EClass) list \<Rightarrow> nat list \<Rightarrow> nat list \<Rightarrow> jsnum \<Rightarrow> XTerm list \<Rightarrow> jsnum
       \<Rightarrow> (UnionFind \<times> (error + XTerm list \<times> jsnum)) res"
where
  "extract_worker 0 uf cls visited upperBound eid0 = OutOfFuel"
| "extract_worker (Suc f) uf cls visited upperBound eid0 =
     bnd (find uf eid0) (\<lambda>(uf1, eid).
       if eid \<in> set visited \<or> num_neg upperBound then Ok (uf1, Inl ExtractFailure)
       else case map_of cls eid of
              None \<Rightarrow> Ok (uf1, Inl TypeError)
            | Some eclass \<Rightarrow>
                extract_nodes f uf1 cls (set_add eid visited) (nodes eclass) XUndef upperBound)"
| "extract_nodes f uf cls newVisited [] minTerm minSize = Ok (uf, Inr (minTerm, minSize))"
| "extract_nodes f uf cls newVisited (enode # enodes) minTerm minSize =
     bnd (extract_children f uf cls newVisited (en_children enode) minSize [] (Fin 1)) (\<lambda>(uf1, r).
       case r of
         Inl e \<Rightarrow> extract_nodes f uf1 cls newVisited enodes minTerm minSize
       | Inr (accChildren, accSize) \<Rightarrow>
           extract_nodes f uf1 cls newVisited enodes (XTerm (en_op enode) accChildren) accSize)"
| "extract_children f uf cls newVisited [] minSize accChildren accSize =
     Ok (uf, Inr (accChildren, accSize))"
| "extract_children f uf cls newVisited (child # cs) minSize accChildren accSize =
     bnd (extract_worker f uf cls newVisited (num_sub minSize accSize) child) (\<lambda>(uf1, r).
       case r of
         Inl e \<Rightarrow> Ok (uf1, Inl e)
       | Inr (t, s) \<Rightarrow>
           extract_children f uf1 cls newVisited cs minSize (accChildren @ [t]) (num_add accSize s))"
  by pat_completeness auto
termination
  by (relation "inv_image (less_than <*lex*> less_than <*lex*> less_than)
        (\<lambda>x. case x of
           Inl (f, uf, cls, visited, upperBound, eid0) \<Rightarrow> (f, 0, 0)
         | Inr (Inl (f, uf, cls, visited, enodes, minTerm, minSize)) \<Rightarrow> (f, 2, length enodes)
         | Inr (Inr (f, uf, cls, visited, cs, minSize, accChildren, accSize)) \<Rightarrow> (f, 1, length cs))")
     auto

definition extractSmallest :: "EGraph \<Rightarrow> nat \<Rightarrow> (EGraph \<times> XTerm \<times> jsnum) res" where
  "extractSmallest g eid =
     bnd (extract_worker (Suc (length (parent (unionFind g)))) (unionFind g) (classes g) [] Huge eid)
       (\<lambda>(uf1, r).
          case r of
            Inl e \<Rightarrow> Err e
          | Inr (t, s) \<Rightarrow> Ok (g\<lparr>unionFind := uf1\<rparr>, t, s))"

section \<open>The e-graph with a worklist\<close>

text \<open>
  Embedding of the second \<^verbatim>\<open>EGraph\<close> class of the sources, whose \<^verbatim>\<open>merge\<close> puts
  the surviving class on a worklist and calls \<^verbatim>\<open>rebuild\<close>. There \<^verbatim>\<open>parents\<close> is a
  JavaScript array, which \<^verbatim>\<open>push\<close> changes in place while a \<^verbatim>\<open>for ... of\<close> loop
  of \<^verbatim>\<open>repair\<close> may be reading it, so the arrays live in a store
  (\<open>w_arrays\<close>, addresses handed out from \<open>w_next\<close>) and a class holds the address of its
  array. The functions of this variant carry the prefix \<open>w_\<close>.
\<close>

record WEClass =
  w_nodes :: "ENode list"
  w_originalNode :: ENode
  w_parents :: nat

record WEGraph =
  w_unionFind :: UnionFind
  w_classes :: "(nat \<times> WEClass) list"
  w_hashcons :: "(ENode \<times> nat option) list"
  w_worklist :: "nat list"
  w_arrays :: "nat \<Rightarrow> (ENode \<times> nat) list"
  w_next :: nat

definition w_new_EGraph :: WEGraph where
  "w_new_EGraph =
     \<lparr>w_unionFind = new_UnionFind, w_classes = [], w_hashcons = [], w_worklist = [],
      w_arrays = (\<lambda>a. []), w_next = 0\<rparr>"

definition w_classCount :: "WEGraph \<Rightarrow> nat" where
  "w_classCount g = length (w_classes g)"

text \<open>The loop of \<^verbatim>\<open>add\<close> over the children: \<^verbatim>\<open>child.parents.push([enode, eid])\<close>.\<close>

fun w_add_parents :: "WEGraph \<Rightarrow> nat list \<Rightarrow> ENode \<Rightarrow> nat \<Rightarrow> WEGraph res" where
  "w_add_parents g [] enode eid = Ok g"
| "w_add_parents g (child_id # cs) enode eid =
     (case map_of (w_classes g) child_id of
        None \<Rightarrow> Err TypeError
      | Some child \<Rightarrow>
          w_add_parents
            (g\<lparr>w_arrays := (w_arrays g)
                  (w_parents child := w_arrays g (w_parents child) @ [(enode, eid)])\<rparr>)
            cs enode eid)"

definition w_add :: "WEGraph \<Rightarrow> ENode \<Rightarrow> (WEGraph \<times> nat) res" where
  "w_add g enode0 =
     bnd (canonicalize (w_unionFind g) enode0) (\<lambda>(uf1, enode).
       case map_of (w_hashcons g) enode of
         Some (Some eid) \<Rightarrow> Ok (g\<lparr>w_unionFind := uf1\<rparr>, eid)
       | _ \<Rightarrow>
          (let (uf2, eid) = uf_extend uf1;
               hc = AList.update enode (Some eid) (w_hashcons g);
               eclass = \<lparr>w_nodes = [enode], w_originalNode = enode, w_parents = w_next g\<rparr>;
               g1 = g\<lparr>w_unionFind := uf2, w_classes := AList.update eid eclass (w_classes g),
                      w_hashcons := hc, w_arrays := (w_arrays g)(w_next g := []),
                      w_next := Suc (w_next g)\<rparr>
           in bnd (w_add_parents g1 (en_children enode) enode eid) (\<lambda>g2. Ok (g2, eid))))"

fun w_addTerm :: "WEGraph \<Rightarrow> Term \<Rightarrow> (WEGraph \<times> nat) res"
  and w_addTerms :: "WEGraph \<Rightarrow> Term list \<Rightarrow> (WEGraph \<times> nat list) res"
where
  "w_addTerm g (Term opr cs) =
     bnd (w_addTerms g cs) (\<lambda>(g1, childIds). w_add g1 (ENode opr childIds))"
| "w_addTerms g [] = Ok (g, [])"
| "w_addTerms g (t # ts) =
     bnd (w_addTerm g t) (\<lambda>(g1, i).
     bnd (w_addTerms g1 ts) (\<lambda>(g2, is). Ok (g2, i # is)))"

text \<open>The first loop of \<^verbatim>\<open>repair\<close>, which only writes \<^verbatim>\<open>hashcons\<close>.\<close>

fun w_repair_hashcons :: "WEGraph \<Rightarrow> (ENode \<times> nat) list \<Rightarrow> WEGraph res" where
  "w_repair_hashcons g [] = Ok g"
| "w_repair_hashcons g ((parentENode, parentEClassId) # es) =
     bnd (canonicalize (w_unionFind g) parentENode) (\<lambda>(uf1, newParentNode).
     bnd (find uf1 parentEClassId) (\<lambda>(uf2, newParentEClassId).
       w_repair_hashcons
         (g\<lparr>w_unionFind := uf2,
             w_hashcons := AList.update newParentNode (Some newParentEClassId)
                             (map_delete parentENode (w_hashcons g))\<rparr>) es))"

text \<open>
  \<^verbatim>\<open>merge\<close>, \<^verbatim>\<open>rebuild\<close>, the \<^verbatim>\<open>for\<close> loop of \<^verbatim>\<open>rebuild\<close> over \<^verbatim>\<open>todo\<close>
  (\<open>w_repair_all\<close>), \<^verbatim>\<open>repair\<close>, and the second loop of \<^verbatim>\<open>repair\<close>
  (\<open>w_repair_loop\<close>). The second loop reads the array at the address \<open>a\<close> that
  \<^verbatim>\<open>eclass.parents\<close> held when the loop started, at the index \<open>i\<close>, and like the
  array iterator of JavaScript it compares \<open>i\<close> with the length that the array has at
  that moment; \<open>e\<close> names the object \<^verbatim>\<open>eclass\<close>. The first argument is the number of
  calls that may still be nested: every call, and every turn of a loop, passes on one
  less.
\<close>

function w_merge_f :: "nat \<Rightarrow> WEGraph \<Rightarrow> nat \<Rightarrow> nat \<Rightarrow> (WEGraph \<times> bool) res"
  and w_rebuild_f :: "nat \<Rightarrow> WEGraph \<Rightarrow> WEGraph res"
  and w_repair_all :: "nat \<Rightarrow> WEGraph \<Rightarrow> nat list \<Rightarrow> WEGraph res"
  and w_repair_f :: "nat \<Rightarrow> WEGraph \<Rightarrow> nat \<Rightarrow> WEGraph res"
  and w_repair_loop :: "nat \<Rightarrow> WEGraph \<Rightarrow> nat \<Rightarrow> nat \<Rightarrow> nat \<Rightarrow> (ENode \<times> nat) list \<Rightarrow> WEGraph res"
where
  "w_merge_f 0 g eid1 eid2 = OutOfFuel"
| "w_merge_f (Suc f) g eid1 eid2 =
     bnd (union (w_unionFind g) eid1 eid2) (\<lambda>(uf1, unionResult).
       case unionResult of
         None \<Rightarrow> Ok (g\<lparr>w_unionFind := uf1\<rparr>, False)
       | Some (newRootId, oldRootId) \<Rightarrow>
          (let newRoot = map_of (w_classes g) newRootId;
               oldRoot = map_of (w_classes g) oldRootId;
               cls1 = map_delete oldRootId (w_classes g)
           in case oldRoot of
                None \<Rightarrow> Err TypeError
              | Some old \<Rightarrow>
                 (let eid = (case map_of (w_hashcons g) (w_originalNode old) of
                               None \<Rightarrow> None | Some v \<Rightarrow> v)
                  in bnd (canonicalize uf1 (w_originalNode old)) (\<lambda>(uf2, cn).
                     bnd (find_opt uf2 eid) (\<lambda>(uf3, eid').
                       (let hc = AList.update cn eid' (map_delete (w_originalNode old) (w_hashcons g))
                        in case newRoot of
                             None \<Rightarrow> Err TypeError
                           | Some new \<Rightarrow>
                              (let new' = new\<lparr>w_nodes := set_union (w_nodes new) (w_nodes old)\<rparr>;
                                   arrs = (w_arrays g)(w_parents new :=
                                            w_arrays g (w_parents new) @ w_arrays g (w_parents old));
                                   g1 = g\<lparr>w_unionFind := uf3,
                                          w_classes := AList.update newRootId new' cls1,
                                          w_hashcons := hc,
                                          w_worklist := w_worklist g @ [newRootId],
                                          w_arrays := arrs\<rparr>
                               in bnd (w_rebuild_f f g1) (\<lambda>g2. Ok (g2, True)))))))))"
| "w_rebuild_f 0 g = OutOfFuel"
| "w_rebuild_f (Suc f) g =
     (if w_worklist g = [] then Ok g
      else bnd (find_all (w_unionFind g) (w_worklist g)) (\<lambda>(uf1, ids).
             bnd (w_repair_all f (g\<lparr>w_unionFind := uf1, w_worklist := []\<rparr>) (set_union [] ids))
               (\<lambda>g1. w_rebuild_f f g1)))"
| "w_repair_all 0 g ids = OutOfFuel"
| "w_repair_all (Suc f) g [] = Ok g"
| "w_repair_all (Suc f) g (eid # ids) =
     bnd (w_repair_f f g eid) (\<lambda>g1. w_repair_all f g1 ids)"
| "w_repair_f 0 g eid = OutOfFuel"
| "w_repair_f (Suc f) g eid =
     (case map_of (w_classes g) eid of
        None \<Rightarrow> Err TypeError
      | Some eclass \<Rightarrow>
          bnd (w_repair_hashcons g (w_arrays g (w_parents eclass)))
            (\<lambda>g1. w_repair_loop f g1 eid (w_parents eclass) 0 []))"
| "w_repair_loop 0 g e a i dedupParents = OutOfFuel"
| "w_repair_loop (Suc f) g e a i dedupParents =
     (if i < length (w_arrays g a) then
        (case w_arrays g a ! i of (parentENode, parentEClassId) \<Rightarrow>
           bnd (canonicalize (w_unionFind g) parentENode) (\<lambda>(uf1, newParentNode).
           bnd (find uf1 parentEClassId) (\<lambda>(uf2, newParentEClass).
             (let g1 = g\<lparr>w_unionFind := uf2\<rparr>
              in bnd (case map_of dedupParents newParentNode of
                        None \<Rightarrow> Ok g1
                      | Some newParentEClassId2 \<Rightarrow>
                          if newParentEClassId2 \<noteq> 0
                          then bnd (w_merge_f f g1 parentEClassId newParentEClassId2)
                                 (\<lambda>(g2, _). Ok g2)
                          else Ok g1)
                   (\<lambda>g2. w_repair_loop f g2 e a (Suc i)
                            (AList.update newParentNode newParentEClass dedupParents))))))
      else
        Ok (let g1 = g\<lparr>w_arrays := (w_arrays g)(w_next g := dedupParents),
                       w_next := Suc (w_next g)\<rparr>
            in case map_of (w_classes g1) e of
                 None \<Rightarrow> g1
               | Some eclass \<Rightarrow>
                   g1\<lparr>w_classes := AList.update e (eclass\<lparr>w_parents := w_next g\<rparr>)
                                      (w_classes g1)\<rparr>))"
  by pat_completeness auto
termination
  by (relation "measure (\<lambda>x. case x of
           Inl (Inl (f, g, a, b)) \<Rightarrow> f
         | Inl (Inr (f, g)) \<Rightarrow> f
         | Inr (Inl (f, g, ids)) \<Rightarrow> f
         | Inr (Inr (Inl (f, g, eid))) \<Rightarrow> f
         | Inr (Inr (Inr (f, g, e, a, i, d))) \<Rightarrow> f)") auto

section \<open>The saturation driver\<close>

text \<open>
  In \<^verbatim>\<open>equality_saturation\<close> the generator \<^verbatim>\<open>ematch\<close> is resumed between the
  calls of \<^verbatim>\<open>addPattern\<close> and \<^verbatim>\<open>merge\<close>, so it reads the e-graph as those calls
  left it. An \<open>iter\<close> is a suspended iterator of the matcher:
  \<^item> \<open>IArr\<close>, the rest of \<^verbatim>\<open>Iterator.from([subst])\<close>;
  \<^item> \<open>IFlat outer p c inner\<close>, the iterator \<^verbatim>\<open>outer.flatMap((sub) => worker(egraph, p, c, sub))\<close>
    with the generator it is draining, if any;
  \<^item> \<open>IStart p eid sub\<close>, the generator \<^verbatim>\<open>worker(egraph, p, eid, sub)\<close> before its
    first step;
  \<^item> \<open>INodes opr ps enodes sub cur\<close>, a \<^verbatim>\<open>worker\<close> inside its loop over
    \<^verbatim>\<open>eclass.nodes\<close>, with the nodes still to visit and the iterator \<^verbatim>\<open>substs\<close> that
    \<^verbatim>\<open>yield*\<close> is draining, if any.
  \<open>pull\<close> is \<^verbatim>\<open>next()\<close>: it returns the value yielded (\<open>None\<close> when the iterator is
  done) and the iterator as it is left. Its first argument bounds the nesting of calls.
\<close>

datatype iter =
    IArr "subst list"
  | IFlat iter Pattern nat "iter option"
  | IStart Pattern nat subst
  | INodes string "Pattern list" "ENode list" subst "iter option"

fun pull :: "nat \<Rightarrow> EGraph \<Rightarrow> iter \<Rightarrow> (EGraph \<times> subst option \<times> iter) res" where
  "pull 0 g it = OutOfFuel"
| "pull (Suc f) g (IArr []) = Ok (g, None, IArr [])"
| "pull (Suc f) g (IArr (s # ss)) = Ok (g, Some s, IArr ss)"
| "pull (Suc f) g (IFlat outer cp ce None) =
     bnd (pull f g outer) (\<lambda>(g1, r, outer').
       case r of
         None \<Rightarrow> Ok (g1, None, IFlat outer' cp ce None)
       | Some sub \<Rightarrow> pull f g1 (IFlat outer' cp ce (Some (IStart cp ce sub))))"
| "pull (Suc f) g (IFlat outer cp ce (Some inner)) =
     bnd (pull f g inner) (\<lambda>(g1, r, inner').
       case r of
         Some s \<Rightarrow> Ok (g1, Some s, IFlat outer cp ce (Some inner'))
       | None \<Rightarrow> pull f g1 (IFlat outer cp ce None))"
| "pull (Suc f) g (IStart (Var name) eid0 sub) =
     bnd (find (unionFind g) eid0) (\<lambda>(uf1, eid).
       case map_of sub name of
         None \<Rightarrow> Ok (g\<lparr>unionFind := uf1\<rparr>, Some (AList.update name eid sub), IArr [])
       | Some entry \<Rightarrow>
           if entry = eid
           then Ok (g\<lparr>unionFind := uf1\<rparr>, Some (AList.update name eid sub), IArr [])
           else Ok (g\<lparr>unionFind := uf1\<rparr>, None, IArr []))"
| "pull (Suc f) g (IStart (Node opr ps) eid0 sub) =
     bnd (find (unionFind g) eid0) (\<lambda>(uf1, eid).
       case map_of (classes g) eid of
         None \<Rightarrow> Err TypeError
       | Some eclass \<Rightarrow> pull f (g\<lparr>unionFind := uf1\<rparr>) (INodes opr ps (nodes eclass) sub None))"
| "pull (Suc f) g (INodes opr ps enodes sub (Some cur)) =
     bnd (pull f g cur) (\<lambda>(g1, r, cur').
       case r of
         Some s \<Rightarrow> Ok (g1, Some s, INodes opr ps enodes sub (Some cur'))
       | None \<Rightarrow> pull f g1 (INodes opr ps enodes sub None))"
| "pull (Suc f) g (INodes opr ps [] sub None) = Ok (g, None, IArr [])"
| "pull (Suc f) g (INodes opr ps (enode # enodes) sub None) =
     (if opr \<noteq> en_op enode then pull f g (INodes opr ps enodes sub None)
      else pull f g (INodes opr ps enodes sub
             (Some (foldl (\<lambda>substs (cp, ce). IFlat substs cp ce None) (IArr [sub])
                      (zip ps (en_children enode))))))"

text \<open>
  The generator \<^verbatim>\<open>ematch\<close> itself: the keys of \<^verbatim>\<open>classes\<close> still to visit (the
  iterator \<^verbatim>\<open>this.classes.keys()\<close> runs over the map as it was when the generator
  started) and the \<^verbatim>\<open>worker\<close> of the current key.
\<close>

type_synonym ematch_gen = "nat list \<times> (nat \<times> iter) option"

function ematch_next ::
    "nat \<Rightarrow> EGraph \<Rightarrow> Pattern \<Rightarrow> ematch_gen \<Rightarrow> (EGraph \<times> (subst \<times> nat) option \<times> ematch_gen) res" where
  "ematch_next f g p (keys, Some (eid, it)) =
     bnd (pull f g it) (\<lambda>(g1, r, it').
       case r of
         Some s \<Rightarrow> Ok (g1, Some (s, eid), (keys, Some (eid, it')))
       | None \<Rightarrow> ematch_next f g1 p (keys, None))"
| "ematch_next f g p ([], None) = Ok (g, None, ([], None))"
| "ematch_next f g p (eid # keys, None) = ematch_next f g p (keys, Some (eid, IStart p eid []))"
  by pat_completeness auto
termination
  by (relation "measure (\<lambda>(f, g, p, keys, cur). 2 * length keys + (case cur of None \<Rightarrow> 0 | Some _ \<Rightarrow> 1))")
     auto

text \<open>
  The loop \<^verbatim>\<open>for (const [subst, eclass] of egraph.ematch(lhs))\<close> of the driver. The
  first argument bounds the number of matches taken, and is the bound given to \<open>pull\<close>.
\<close>

fun apply_rule :: "nat \<Rightarrow> nat \<Rightarrow> EGraph \<Rightarrow> Pattern \<Rightarrow> Pattern \<Rightarrow> ematch_gen \<Rightarrow> EGraph res" where
  "apply_rule fuel 0 g lhs rhs gen = OutOfFuel"
| "apply_rule fuel (Suc n) g lhs rhs gen =
     bnd (ematch_next fuel g lhs gen) (\<lambda>(g1, r, gen').
       case r of
         None \<Rightarrow> Ok g1
       | Some (sub, eclass) \<Rightarrow>
           bnd (addPattern g1 sub rhs) (\<lambda>(g2, eclass2).
           bnd (merge g2 eclass eclass2) (\<lambda>(g3, _).
             apply_rule fuel n g3 lhs rhs gen')))"

text \<open>One pass of the loop \<^verbatim>\<open>for (const [lhs, rhs] of rewrites)\<close>.\<close>

fun sweep :: "nat \<Rightarrow> EGraph \<Rightarrow> (Pattern \<times> Pattern) list \<Rightarrow> EGraph res" where
  "sweep fuel g [] = Ok g"
| "sweep fuel g ((lhs, rhs) # rewrites) =
     bnd (apply_rule fuel fuel g lhs rhs (map fst (classes g), None)) (\<lambda>g1. sweep fuel g1 rewrites)"

text \<open>
  The loop \<^verbatim>\<open>for (let i = 0; i < maxIteration; i++)\<close>, with the iterations left as
  second argument. It returns the e-graph and whether it was left by the \<^verbatim>\<open>break\<close> of
  \<^verbatim>\<open>!madeProgress\<close>.
\<close>

fun saturate :: "nat \<Rightarrow> nat \<Rightarrow> EGraph \<Rightarrow> (Pattern \<times> Pattern) list \<Rightarrow> (EGraph \<times> bool) res" where
  "saturate fuel 0 g rewrites = Ok (g, False)"
| "saturate fuel (Suc n) g rewrites =
     bnd (sweep fuel g rewrites) (\<lambda>g1.
       if classCount g \<noteq> classCount g1 \<or> nodeCount g \<noteq> nodeCount g1
       then saturate fuel n g1 rewrites
       else Ok (g1, True))"

definition equality_saturation ::
    "nat \<Rightarrow> Term \<Rightarrow> (Pattern \<times> Pattern) list \<Rightarrow> nat \<Rightarrow> XTerm res" where
  "equality_saturation fuel term rewrites maxIteration =
     bnd (addTerm new_EGraph term) (\<lambda>(egraph, eid).
     bnd (saturate fuel maxIteration egraph rewrites) (\<lambda>(egraph1, _).
     bnd (extractSmallest egraph1 eid) (\<lambda>(egraph2, t, s). Ok t)))"

section \<open>Canonical keys, and runs of the public operations\<close>

text \<open>
  A key of the union-find is a root when it is its own parent; an e-node is canonical when
  all its children are roots.
\<close>

definition is_root :: "UnionFind \<Rightarrow> nat \<Rightarrow> bool" where
  "is_root uf x \<longleftrightarrow> x < length (parent uf) \<and> parent uf ! x = x"

definition canonical_node :: "UnionFind \<Rightarrow> ENode \<Rightarrow> bool" where
  "canonical_node uf n \<longleftrightarrow> list_all (is_root uf) (en_children n)"

definition hashcons_canonical :: "EGraph \<Rightarrow> bool" where
  "hashcons_canonical g \<longleftrightarrow> list_all (canonical_node (unionFind g)) (map fst (hashcons g))"

definition classes_canonical :: "EGraph \<Rightarrow> bool" where
  "classes_canonical g \<longleftrightarrow> list_all (is_root (unionFind g)) (map fst (classes g))"

definition keys_scenario :: "EGraph res" where
  "keys_scenario =
     bnd (addTerm new_EGraph (Term ''f'' [Term ''a'' [], Term ''b'' []])) (\<lambda>(g1, e).
     bnd (addTerm g1 (Term ''c'' [])) (\<lambda>(g2, c).
     bnd (addTerm g2 (Term ''d'' [])) (\<lambda>(g3, d).
     bnd (merge g3 c 0) (\<lambda>(g4, _).
     bnd (merge g4 d 1) (\<lambda>(g5, _). Ok g5)))))"

definition extract_scenario :: "(XTerm \<times> jsnum) res" where
  "extract_scenario =
     bnd (addTerm new_EGraph (Term ''g'' [Term ''c'' []])) (\<lambda>(g1, e1).
     bnd (addTerm g1 (Term ''h'' [Term ''c'' [], Term ''c'' []])) (\<lambda>(g2, e2).
     bnd (merge g2 e1 e2) (\<lambda>(g3, _).
     bnd (extractSmallest g3 e1) (\<lambda>(g4, t, s). Ok (t, s)))))"

definition ematch_scenario :: "((subst \<times> nat) list \<times> nat \<times> nat \<times> nat) res" where
  "ematch_scenario =
     bnd (addTerm new_EGraph (Term ''f'' [Term ''a'' [], Term ''b'' []])) (\<lambda>(g1, e).
     bnd (ematch g1 (Node ''f'' [Var ''x''])) (\<lambda>(g2, ms).
     bnd (addPattern g2 (fst (hd ms)) (Node ''f'' [Var ''x''])) (\<lambda>(g3, e').
     bnd (find (unionFind g3) e') (\<lambda>(uf1, r').
     bnd (find uf1 (snd (hd ms))) (\<lambda>(uf2, r). Ok (ms, e', r', r))))))"

definition idempotence_scenario :: "(nat \<times> nat \<times> nat \<times> nat) res" where
  "idempotence_scenario =
     bnd (addTerm new_EGraph (Term ''f'' [Term ''a'' []])) (\<lambda>(g1, e1).
     bnd (addTerm g1 (Term ''b'' [])) (\<lambda>(g2, b).
     bnd (addTerm g2 (Term ''c'' [])) (\<lambda>(g3, c).
     bnd (merge g3 b 0) (\<lambda>(g4, _).
     bnd (merge g4 c e1) (\<lambda>(g5, _).
     bnd (addTerm g5 (Term ''f'' [Term ''a'' []])) (\<lambda>(g6, e2).
     bnd (find (unionFind g6) e1) (\<lambda>(uf1, r1).
     bnd (find uf1 e2) (\<lambda>(uf2, r2). Ok (e1, e2, r1, r2)))))))))"

text \<open>
  The same run, ended by \<^verbatim>\<open>add\<close> of the node \<^verbatim>\<open>f(0)\<close> of \<^verbatim>\<open>(f a)\<close>. The run
  returns the \<^verbatim>\<open>parents\<close> map of the class 2 (the class of \<^verbatim>\<open>a\<close>) before that
  call, the id that the call returns, the \<^verbatim>\<open>parents\<close> map of the class 2 after the
  call, and the keys of \<^verbatim>\<open>classes\<close> before and after the call.
\<close>

definition frame_scenario ::
  "((ENode \<times> nat) list \<times> nat \<times> (ENode \<times> nat) list \<times> nat list \<times> nat list) res" where
  "frame_scenario =
     bnd (addTerm new_EGraph (Term ''f'' [Term ''a'' []])) (\<lambda>(g1, e1).
     bnd (addTerm g1 (Term ''b'' [])) (\<lambda>(g2, b).
     bnd (addTerm g2 (Term ''c'' [])) (\<lambda>(g3, c).
     bnd (merge g3 b 0) (\<lambda>(g4, _).
     bnd (merge g4 c e1) (\<lambda>(g5, _).
     bnd (add g5 (ENode ''f'' [0])) (\<lambda>(g6, e2).
       Ok (case map_of (classes g5) 2 of None \<Rightarrow> [] | Some c \<Rightarrow> parents c,
           e2,
           case map_of (classes g6) 2 of None \<Rightarrow> [] | Some c \<Rightarrow> parents c,
           map fst (classes g5), map fst (classes g6))))))))"

text \<open>
  A ground pattern for a term, and a run of the driver on an e-graph that holds the two
  terms \<^verbatim>\<open>(f (h c a))\<close> and \<^verbatim>\<open>(h a b)\<close>, with the rules
  \<^verbatim>\<open>a -> c\<close>, \<^verbatim>\<open>b -> a\<close> and \<^verbatim>\<open>(f (h c a)) -> (h a b)\<close>. The run returns
  whether the driver stopped for lack of progress, the roots of the two ids after the
  run, and the roots of the ids that \<^verbatim>\<open>addTerm\<close> returns for the two terms after the
  run.
\<close>

fun term_pattern :: "Term \<Rightarrow> Pattern" where
  "term_pattern (Term opr cs) = Node opr (map term_pattern cs)"

definition closure_rules :: "(Pattern \<times> Pattern) list" where
  "closure_rules =
     [(Node ''a'' [], Node ''c'' []),
      (Node ''b'' [], Node ''a'' []),
      (Node ''f'' [Node ''h'' [Node ''c'' [], Node ''a'' []]], Node ''h'' [Node ''a'' [], Node ''b'' []])]"

definition closure_scenario :: "(bool \<times> nat \<times> nat \<times> nat \<times> nat) res" where
  "closure_scenario =
     bnd (addTerm new_EGraph (Term ''f'' [Term ''h'' [Term ''c'' [], Term ''a'' []]])) (\<lambda>(g, e1).
     bnd (addTerm g (Term ''h'' [Term ''a'' [], Term ''b'' []])) (\<lambda>(g0, e2).
     bnd (saturate 64 16 g0 closure_rules) (\<lambda>(g1, stopped).
     bnd (find (unionFind g1) e1) (\<lambda>(uf1, r1).
     bnd (find uf1 e2) (\<lambda>(uf2, r2).
     bnd (addTerm (g1\<lparr>unionFind := uf2\<rparr>) (Term ''f'' [Term ''h'' [Term ''c'' [], Term ''a'' []]])) (\<lambda>(g2, e1').
     bnd (addTerm g2 (Term ''h'' [Term ''a'' [], Term ''b'' []])) (\<lambda>(g3, e2').
     bnd (find (unionFind g3) e1') (\<lambda>(uf3, r1').
     bnd (find uf3 e2') (\<lambda>(uf4, r2'). Ok (stopped, r1, r2, r1', r2'))))))))))"

text \<open>
  A run of the driver on the term \<^verbatim>\<open>(f (h (f b) (f c)))\<close> with the rules
  \<^verbatim>\<open>b -> a\<close>, \<^verbatim>\<open>(f c) -> b\<close> and \<^verbatim>\<open>c -> (h (f b) (f c))\<close>. The run returns the
  two counts after the first and after the second sweep, whether the driver stopped for
  lack of progress, whether it stopped in the state that the second sweep leaves, and the
  two counts after one more sweep from the state in which the driver stopped.
\<close>

definition fixpoint_term :: Term where
  "fixpoint_term = Term ''f'' [Term ''h'' [Term ''f'' [Term ''b'' []], Term ''f'' [Term ''c'' []]]]"

definition fixpoint_rules :: "(Pattern \<times> Pattern) list" where
  "fixpoint_rules =
     [(Node ''b'' [], Node ''a'' []),
      (Node ''f'' [Node ''c'' []], Node ''b'' []),
      (Node ''c'' [], Node ''h'' [Node ''f'' [Node ''b'' []], Node ''f'' [Node ''c'' []]])]"

definition counts :: "EGraph \<Rightarrow> nat \<times> nat" where
  "counts g = (classCount g, nodeCount g)"

definition fixpoint_scenario ::
  "((nat \<times> nat) \<times> (nat \<times> nat) \<times> bool \<times> bool \<times> (nat \<times> nat)) res" where
  "fixpoint_scenario =
     bnd (addTerm new_EGraph fixpoint_term) (\<lambda>(g0, e).
     bnd (sweep 64 g0 fixpoint_rules) (\<lambda>g1.
     bnd (sweep 64 g1 fixpoint_rules) (\<lambda>g2.
     bnd (saturate 64 16 g0 fixpoint_rules) (\<lambda>(gs, stopped).
     bnd (sweep 64 gs fixpoint_rules) (\<lambda>g3.
       Ok (counts g1, counts g2, stopped, gs = g2, counts g3))))))"


section \<open>Well-formed union-finds\<close>

text \<open>
  The union-find is well formed when both arrays have the same length, every parent is a
  key, and some height \<open>h\<close> falls along every parent link that is no loop (so the
  links have no cycle). \<open>rep p x\<close> follows the links from \<open>x\<close> as many times as
  there are keys, which reaches the root of \<open>x\<close>. \<open>uf_same uf uf'\<close>: \<open>uf'\<close> is well
  formed, with the keys, the ranks and the representatives of \<open>uf\<close>.
\<close>

definition acyclic_p :: "nat list \<Rightarrow> (nat \<Rightarrow> nat) \<Rightarrow> bool" where
  "acyclic_p p h \<longleftrightarrow> (\<forall>i<length p. p ! i < length p \<and> (p ! i \<noteq> i \<longrightarrow> h (p ! i) < h i))"

definition rep :: "nat list \<Rightarrow> nat \<Rightarrow> nat" where
  "rep p x = ((\<lambda>i. p ! i) ^^ length p) x"

definition uf_inv :: "UnionFind \<Rightarrow> bool" where
  "uf_inv uf \<longleftrightarrow> length (rank uf) = length (parent uf) \<and> (\<exists>h. acyclic_p (parent uf) h)"

definition roots :: "nat list \<Rightarrow> nat set" where
  "roots p = {i. i < length p \<and> p ! i = i}"

definition nroots :: "UnionFind \<Rightarrow> nat" where
  "nroots uf = card (roots (parent uf))"

definition uf_same :: "UnionFind \<Rightarrow> UnionFind \<Rightarrow> bool" where
  "uf_same uf uf' \<longleftrightarrow>
     uf_inv uf' \<and> length (parent uf') = length (parent uf) \<and> rank uf' = rank uf \<and>
     (\<forall>i<length (parent uf). rep (parent uf') i = rep (parent uf) i)"

text \<open>
  The result of \<^verbatim>\<open>repair\<close> or \<^verbatim>\<open>merge\<close> is fine when it is an exception, or
  an e-graph with a well-formed union-find that has no more roots and no more classes
  than before (fewer classes when \<^verbatim>\<open>merge\<close> returns \<^verbatim>\<open>true\<close>).
\<close>

definition res_fine :: "EGraph \<Rightarrow> EGraph res \<Rightarrow> bool" where
  "res_fine g r =
     (case r of
        OutOfFuel \<Rightarrow> False
      | Err e \<Rightarrow> True
      | Ok g' \<Rightarrow> uf_inv (unionFind g') \<and> nroots (unionFind g') \<le> nroots (unionFind g) \<and>
                 length (classes g') \<le> length (classes g))"

definition merge_fine :: "EGraph \<Rightarrow> (EGraph \<times> bool) res \<Rightarrow> bool" where
  "merge_fine g r =
     (case r of
        OutOfFuel \<Rightarrow> False
      | Err e \<Rightarrow> True
      | Ok (g', b) \<Rightarrow> uf_inv (unionFind g') \<and> nroots (unionFind g') \<le> nroots (unionFind g) \<and>
                 length (classes g') \<le> length (classes g) \<and>
                 (b \<longrightarrow> length (classes g') < length (classes g)))"

text \<open>
  \<open>le_res r r'\<close>: the result \<open>r'\<close> of a run with a larger bound agrees with the result
  \<open>r\<close> of a run of the same call that ended within its bound.
\<close>

definition le_res :: "'a res \<Rightarrow> 'a res \<Rightarrow> bool" where
  "le_res r r' \<longleftrightarrow> r = OutOfFuel \<or> r' = r"

text \<open>
  What the results of the worklist variant keep: a well-formed union-find, no more roots
  and no more classes than before, and an empty worklist when it was empty before
  (\<open>w_fine\<close>) or in any case (\<open>w_rebuild_fine\<close>). A \<^verbatim>\<open>merge\<close> that returns
  \<^verbatim>\<open>true\<close> has removed a root and a class; one that returns \<^verbatim>\<open>false\<close> has
  changed the union-find only (\<open>w_merge_fine\<close>). A turn of the second loop of
  \<^verbatim>\<open>repair\<close> has removed a root or has left all arrays as they were
  (\<open>w_step_fine\<close>).
\<close>

definition w_fine :: "WEGraph \<Rightarrow> WEGraph res \<Rightarrow> bool" where
  "w_fine g r =
     (case r of
        OutOfFuel \<Rightarrow> False
      | Err e \<Rightarrow> True
      | Ok g' \<Rightarrow> uf_inv (w_unionFind g') \<and> nroots (w_unionFind g') \<le> nroots (w_unionFind g) \<and>
                 length (w_classes g') \<le> length (w_classes g) \<and>
                 (w_worklist g = [] \<longrightarrow> w_worklist g' = []))"

definition w_rebuild_fine :: "WEGraph \<Rightarrow> WEGraph res \<Rightarrow> bool" where
  "w_rebuild_fine g r =
     (case r of
        OutOfFuel \<Rightarrow> False
      | Err e \<Rightarrow> True
      | Ok g' \<Rightarrow> uf_inv (w_unionFind g') \<and> nroots (w_unionFind g') \<le> nroots (w_unionFind g) \<and>
                 length (w_classes g') \<le> length (w_classes g) \<and> w_worklist g' = [])"

definition w_merge_fine :: "WEGraph \<Rightarrow> (WEGraph \<times> bool) res \<Rightarrow> bool" where
  "w_merge_fine g r =
     (case r of
        OutOfFuel \<Rightarrow> False
      | Err e \<Rightarrow> True
      | Ok (g', b) \<Rightarrow>
          uf_inv (w_unionFind g') \<and>
          (if b then nroots (w_unionFind g') < nroots (w_unionFind g) \<and>
                     length (w_classes g') < length (w_classes g) \<and> w_worklist g' = []
           else nroots (w_unionFind g') = nroots (w_unionFind g) \<and>
                w_classes g' = w_classes g \<and> w_arrays g' = w_arrays g \<and>
                w_worklist g' = w_worklist g))"

definition w_step_fine :: "WEGraph \<Rightarrow> WEGraph res \<Rightarrow> bool" where
  "w_step_fine g r =
     (case r of
        OutOfFuel \<Rightarrow> False
      | Err e \<Rightarrow> True
      | Ok g' \<Rightarrow> uf_inv (w_unionFind g') \<and>
                 length (w_classes g') \<le> length (w_classes g) \<and>
                 (w_worklist g = [] \<longrightarrow> w_worklist g' = []) \<and>
                 (nroots (w_unionFind g') < nroots (w_unionFind g) \<or>
                  nroots (w_unionFind g') = nroots (w_unionFind g) \<and> w_arrays g' = w_arrays g))"

text \<open>
  The e-graphs that \<^verbatim>\<open>addTerm\<close> builds from \<^verbatim>\<open>(g (f a))\<close> and \<^verbatim>\<open>(g (f b))\<close>, for
  both variants: the ids are \<^verbatim>\<open>a\<close> 0, \<^verbatim>\<open>f(0)\<close> 1, \<^verbatim>\<open>g(1)\<close> 2, \<^verbatim>\<open>b\<close> 3,
  \<^verbatim>\<open>f(3)\<close> 4, \<^verbatim>\<open>g(4)\<close> 5. A \<^verbatim>\<open>merge\<close> of 0 and 3 makes \<^verbatim>\<open>repair\<close> merge 4
  and 1, and the \<^verbatim>\<open>repair\<close> within that \<^verbatim>\<open>merge\<close> merges 2 and 5.
\<close>

definition cascade_graph :: EGraph where
  "cascade_graph =
     (case bnd (addTerm new_EGraph (Term ''g'' [Term ''f'' [Term ''a'' []]]))
             (\<lambda>(g, e). addTerm g (Term ''g'' [Term ''f'' [Term ''b'' []]])) of
        Ok (g, e) \<Rightarrow> g
      | _ \<Rightarrow> new_EGraph)"

definition w_cascade_graph :: WEGraph where
  "w_cascade_graph =
     (case bnd (w_addTerm w_new_EGraph (Term ''g'' [Term ''f'' [Term ''a'' []]]))
             (\<lambda>(g, e). w_addTerm g (Term ''g'' [Term ''f'' [Term ''b'' []]])) of
        Ok (g, e) \<Rightarrow> g
      | _ \<Rightarrow> w_new_EGraph)"

section \<open>Properties of the parser and the printer\<close>

lemma scan_atom: "list_all atom_char s \<Longrightarrow> scan acc (s @ rest) = scan (acc @ s) rest"
  by (induction s arbitrary: acc) (auto simp: atom_char_def)

lemma scan_delim: "delim rest \<Longrightarrow> acc \<noteq> [] \<Longrightarrow> scan acc rest = acc # scan [] rest"
  by (cases rest) (auto simp: delim_def flush_def)

lemma scan_wf_atom: "wf_atom s \<Longrightarrow> delim rest \<Longrightarrow> scan [] (s @ rest) = s # scan [] rest"
  by (simp add: wf_atom_def scan_atom scan_delim)

lemma wf_atom_not_paren: "wf_atom s \<Longrightarrow> s \<noteq> ''('' \<and> s \<noteq> '')''"
  by (auto simp: wf_atom_def atom_char_def is_paren_def)

lemma delim_space [simp]: "delim (CHR '' '' # r)"
  by (simp add: delim_def is_space_def)

lemma delim_close [simp]: "delim (CHR '')'' # r)"
  by (simp add: delim_def is_paren_def)

lemma scan_Cons_atom: "atom_char c \<Longrightarrow> scan acc (c # cs) = scan (acc @ [c]) cs"
  by (simp add: atom_char_def)

lemma scan_open [simp]: "scan [] (CHR ''('' # r) = ''('' # scan [] r"
  by (simp add: is_paren_def flush_def)

lemma scan_close [simp]: "scan [] (CHR '')'' # r) = '')'' # scan [] r"
  by (simp add: is_paren_def flush_def)

lemma scan_space [simp]: "scan [] (CHR '' '' # r) = scan [] r"
  by (simp add: is_paren_def is_space_def flush_def)

declare scan.simps(2) [simp del]

text \<open>Scanning a space-separated sequence of printed items followed by a closing parenthesis.\<close>

lemma scan_join:
  assumes "\<And>x r. x \<in> set xs \<Longrightarrow> delim r \<Longrightarrow> scan [] (pr x @ r) = toks (sx x) @ scan [] r"
    and "xs \<noteq> []"
  shows "scan [] (join_sp (map pr xs) @ CHR '')'' # rest)
         = concat (map toks (map sx xs)) @ '')'' # scan [] rest"
  using assms
proof (induction xs rule: induct_list012)
  case 1
  then show ?case by simp
next
  case (2 x)
  then show ?case by simp
next
  case (3 x y zs)
  have "scan [] (pr x @ (CHR '' '' # join_sp (map pr (y # zs)) @ CHR '')'' # rest))
        = toks (sx x) @ scan [] (CHR '' '' # join_sp (map pr (y # zs)) @ CHR '')'' # rest)"
    using 3(3) by simp
  moreover have "scan [] (join_sp (map pr (y # zs)) @ CHR '')'' # rest)
        = concat (map toks (map sx (y # zs))) @ '')'' # scan [] rest"
    using 3(2)[OF 3(3)] by simp
  ultimately show ?case by simp
qed

lemma scan_printTerm:
  "wf_term t \<Longrightarrow> delim rest \<Longrightarrow> scan [] (printTerm t @ rest) = toks (sexp_of_term t) @ scan [] rest"
proof (induction t arbitrary: rest)
  case (Term opr cs)
  show ?case
  proof (cases "cs = []")
    case True
    with Term.prems show ?thesis by (simp add: scan_wf_atom)
  next
    case False
    have ih: "\<And>x r. x \<in> set cs \<Longrightarrow> delim r \<Longrightarrow>
        scan [] (printTerm x @ r) = toks (sexp_of_term x) @ scan [] r"
      using Term.IH Term.prems(1) by (simp add: list_all_iff)
    have "scan [] (opr @ CHR '' '' # join_sp (map printTerm cs) @ CHR '')'' # rest)
        = opr # scan [] (join_sp (map printTerm cs) @ CHR '')'' # rest)"
      using Term.prems(1) scan_wf_atom[of opr "CHR '' '' # join_sp (map printTerm cs) @ CHR '')'' # rest"]
      by simp
    with scan_join[of cs printTerm sexp_of_term, OF ih False] False
    show ?thesis by simp
  qed
qed

lemma scan_printPattern:
  "wf_pattern p \<Longrightarrow> delim rest \<Longrightarrow> scan [] (printPattern p @ rest) = toks (sexp_of_pattern p) @ scan [] rest"
proof (induction p arbitrary: rest)
  case (Var name)
  have "atom_char CHR ''?''" by (simp add: atom_char_def is_space_def is_paren_def)
  with Var have "wf_atom (CHR ''?'' # name)" by (simp add: wf_atom_def)
  from scan_wf_atom[OF this Var(2)] show ?case by simp
next
  case (Node opr cs)
  show ?case
  proof (cases "cs = []")
    case True
    with Node.prems show ?thesis by (simp add: scan_wf_atom)
  next
    case False
    have ih: "\<And>x r. x \<in> set cs \<Longrightarrow> delim r \<Longrightarrow>
        scan [] (printPattern x @ r) = toks (sexp_of_pattern x) @ scan [] r"
      using Node.IH Node.prems(1) by (simp add: list_all_iff)
    have "scan [] (opr @ CHR '' '' # join_sp (map printPattern cs) @ CHR '')'' # rest)
        = opr # scan [] (join_sp (map printPattern cs) @ CHR '')'' # rest)"
      using Node.prems(1) scan_wf_atom[of opr "CHR '' '' # join_sp (map printPattern cs) @ CHR '')'' # rest"]
      by simp
    with scan_join[of cs printPattern sexp_of_pattern, OF ih False] False
    show ?thesis by simp
  qed
qed


lemma toks_hd: "wf_sexp s \<Longrightarrow> toks s \<noteq> [] \<and> hd (toks s) \<noteq> '')''"
  by (cases s) (auto dest: wf_atom_not_paren)

lemma parse_both:
  "(\<forall>s pre post. wf_sexp s \<longrightarrow> 2 * length (toks s) \<le> f \<longrightarrow>
      parseSexp f (pre @ toks s @ post) (length pre)
        = Some (Inr (s, length pre + length (toks s))))
   \<and> (\<forall>es pre post acc. list_all wf_sexp es \<longrightarrow> 2 * length (concat (map toks es)) + 1 \<le> f \<longrightarrow>
      parseList f (pre @ concat (map toks es) @ '')'' # post) (length pre) acc
        = Some (Inr (SList (acc @ es), length pre + length (concat (map toks es)) + 1)))"
proof (induction f)
  case 0
  show ?case
  proof (intro conjI allI impI)
    fix s :: Sexp and pre post :: "string list"
    assume "wf_sexp s" "2 * length (toks s) \<le> 0"
    then show "parseSexp 0 (pre @ toks s @ post) (length pre)
        = Some (Inr (s, length pre + length (toks s)))"
      by (cases s) auto
  next
    fix es :: "Sexp list" and pre post :: "string list" and acc :: "Sexp list"
    assume "2 * length (concat (map toks es)) + 1 \<le> 0"
    then show "parseList 0 (pre @ concat (map toks es) @ '')'' # post) (length pre) acc
        = Some (Inr (SList (acc @ es), length pre + length (concat (map toks es)) + 1))"
      by simp
  qed
next
  case (Suc f)
  then have P: "\<And>s pre post. wf_sexp s \<Longrightarrow> 2 * length (toks s) \<le> f \<Longrightarrow>
      parseSexp f (pre @ toks s @ post) (length pre)
        = Some (Inr (s, length pre + length (toks s)))"
    and Q: "\<And>es pre post acc. list_all wf_sexp es \<Longrightarrow> 2 * length (concat (map toks es)) + 1 \<le> f \<Longrightarrow>
      parseList f (pre @ concat (map toks es) @ '')'' # post) (length pre) acc
        = Some (Inr (SList (acc @ es), length pre + length (concat (map toks es)) + 1))"
    by blast+
  show ?case
  proof (intro conjI allI impI)
    fix s :: Sexp and pre post :: "string list"
    assume wf: "wf_sexp s" and fuel: "2 * length (toks s) \<le> Suc f"
    show "parseSexp (Suc f) (pre @ toks s @ post) (length pre)
        = Some (Inr (s, length pre + length (toks s)))"
    proof (cases s)
      case (Atom a)
      with wf show ?thesis by (auto dest: wf_atom_not_paren)
    next
      case (SList es)
      have "parseList f ((pre @ [''(''] ) @ concat (map toks es) @ '')'' # post) (length (pre @ [''(''])) []
          = Some (Inr (SList ([] @ es), length (pre @ [''('']) + length (concat (map toks es)) + 1))"
        using wf fuel SList by (intro Q) auto
      with SList show ?thesis by simp
    qed
  next
    fix es :: "Sexp list" and pre post :: "string list" and acc :: "Sexp list"
    assume wf: "list_all wf_sexp es" and fuel: "2 * length (concat (map toks es)) + 1 \<le> Suc f"
    show "parseList (Suc f) (pre @ concat (map toks es) @ '')'' # post) (length pre) acc
        = Some (Inr (SList (acc @ es), length pre + length (concat (map toks es)) + 1))"
    proof (cases es)
      case Nil
      then show ?thesis by simp
    next
      case (Cons e es')
      from wf Cons have we: "wf_sexp e" and wes: "list_all wf_sexp es'" by auto
      from toks_hd[OF we] obtain t ts where tk: "toks e = t # ts" "t \<noteq> '')''"
        by (cases "toks e") auto
      have l1: "2 * length (toks e) \<le> f" using fuel Cons by simp
      have l2: "2 * length (concat (map toks es')) + 1 \<le> f" using fuel Cons tk by simp
      have s1: "parseSexp f (pre @ toks e @ (concat (map toks es') @ '')'' # post)) (length pre)
          = Some (Inr (e, length pre + length (toks e)))"
        by (rule P[OF we l1])
      have s2: "parseList f ((pre @ toks e) @ concat (map toks es') @ '')'' # post) (length (pre @ toks e)) (acc @ [e])
          = Some (Inr (SList ((acc @ [e]) @ es'), length (pre @ toks e) + length (concat (map toks es')) + 1))"
        by (rule Q[OF wes l2])
      have c: "(pre @ concat (map toks es) @ '')'' # post) ! length pre = t"
        using Cons tk by (simp add: nth_append)
      show ?thesis using s1 s2 c tk Cons by simp
    qed
  qed
qed


lemma sequence_err_map:
  "(\<And>x. x \<in> set xs \<Longrightarrow> f (g x) = Inr x) \<Longrightarrow> sequence_err (map f (map g xs)) = Inr xs"
  by (induction xs) auto

lemma sequence_err_comp:
  "(\<And>x. x \<in> set xs \<Longrightarrow> f (g x) = Inr x) \<Longrightarrow> sequence_err (map (f \<circ> g) xs) = Inr xs"
  by (induction xs) auto

lemma sexpToTerm_sexp_of_term: "sexpToTerm (sexp_of_term t) = Inr t"
  by (induction t) (auto simp: sequence_err_comp)

lemma sexpToPattern_sexp_of_pattern: "wf_pattern p \<Longrightarrow> sexpToPattern (sexp_of_pattern p) = Inr p"
proof (induction p)
  case (Var name)
  then show ?case by (simp add: startsWithQ_def)
next
  case (Node opr cs)
  then have "sequence_err (map sexpToPattern (map sexp_of_pattern cs)) = Inr cs"
    by (intro sequence_err_map) (auto simp: list_all_iff)
  with Node.prems show ?case by auto
qed

lemma wf_sexp_of_term: "wf_term t \<Longrightarrow> wf_sexp (sexp_of_term t)"
  by (induction t) (auto simp: list_all_iff)

lemma wf_sexp_of_pattern: "wf_pattern p \<Longrightarrow> wf_sexp (sexp_of_pattern p)"
proof (induction p)
  case (Var name)
  have "atom_char CHR ''?''" by (simp add: atom_char_def is_space_def is_paren_def)
  with Var show ?case by (simp add: wf_atom_def)
next
  case (Node opr cs)
  then show ?case by (auto simp: list_all_iff)
qed

lemma parseSexp_toks:
  assumes "wf_sexp s"
  shows "parseSexp (parse_fuel (toks s)) (toks s) 0 = Some (Inr (s, length (toks s)))"
proof -
  have "2 * length (toks s) \<le> parse_fuel (toks s)" by (simp add: parse_fuel_def)
  with parse_both[of "parse_fuel (toks s)"] assms
  have "parseSexp (parse_fuel (toks s)) ([] @ toks s @ []) (length ([] :: string list))
        = Some (Inr (s, length ([] :: string list) + length (toks s)))"
    by blast
  then show ?thesis by simp
qed

lemma parseTerm_printTerm: "wf_term t \<Longrightarrow> parseTerm (printTerm t) = Some (Inr t)"
proof -
  assume wf: "wf_term t"
  have "delim []" by (simp add: delim_def)
  from scan_printTerm[OF wf this] have tk: "tokenize (printTerm t) = toks (sexp_of_term t)"
    by (simp add: tokenize_def flush_def)
  show ?thesis
    unfolding parseTerm_def tk Let_def
    by (simp add: parseSexp_toks[OF wf_sexp_of_term[OF wf]] sexpToTerm_sexp_of_term)
qed

lemma parsePattern_printPattern: "wf_pattern p \<Longrightarrow> parsePattern (printPattern p) = Some (Inr p)"
proof -
  assume wf: "wf_pattern p"
  have "delim []" by (simp add: delim_def)
  from scan_printPattern[OF wf this] have tk: "tokenize (printPattern p) = toks (sexp_of_pattern p)"
    by (simp add: tokenize_def flush_def)
  show ?thesis
    unfolding parsePattern_def tk Let_def
    by (simp add: parseSexp_toks[OF wf_sexp_of_pattern[OF wf]] sexpToPattern_sexp_of_pattern[OF wf])
qed









text \<open>
  Claim C9: parsing the printed form of a well-formed term gives the term back, and
  parsing the printed form of a well-formed pattern gives the pattern back.
\<close>

theorem parse_print_roundtrip:
  "(wf_term t \<longrightarrow> parseTerm (printTerm t) = Some (Inr t)) \<and>
   (wf_pattern p \<longrightarrow> parsePattern (printPattern p) = Some (Inr p))"
  by (simp add: parseTerm_printTerm parsePattern_printPattern)

theorem parse_print_roundtrip_witness:
  "wf_term (Term ''*'' [Term ''+'' [Term ''a'' [], Term ''b'' []], Term ''c'' []]) \<and>
   parseTerm (printTerm (Term ''*'' [Term ''+'' [Term ''a'' [], Term ''b'' []], Term ''c'' []]))
     = Some (Inr (Term ''*'' [Term ''+'' [Term ''a'' [], Term ''b'' []], Term ''c'' []])) \<and>
   wf_pattern (Node ''*'' [Node ''+'' [Var ''a'', Var ''b''], Var ''c'']) \<and>
   parsePattern (printPattern (Node ''*'' [Node ''+'' [Var ''a'', Var ''b''], Var ''c'']))
     = Some (Inr (Node ''*'' [Node ''+'' [Var ''a'', Var ''b''], Var ''c'']))"
proof -
  have t: "wf_term (Term ''*'' [Term ''+'' [Term ''a'' [], Term ''b'' []], Term ''c'' []])"
    by (simp add: wf_atom_def atom_char_def is_space_def is_paren_def)
  have p: "wf_pattern (Node ''*'' [Node ''+'' [Var ''a'', Var ''b''], Var ''c''])"
    by (simp add: wf_atom_def atom_char_def is_space_def is_paren_def)
  from parse_print_roundtrip[of "Term ''*'' [Term ''+'' [Term ''a'' [], Term ''b'' []], Term ''c'' []]"
      "Node ''*'' [Node ''+'' [Var ''a'', Var ''b''], Var ''c'']"] t p
  show ?thesis by blast
qed


section \<open>Properties of the union-find\<close>

lemma iter_range: "acyclic_p p h \<Longrightarrow> x < length p \<Longrightarrow> ((\<lambda>i. p ! i) ^^ k) x < length p"
  by (induction k) (auto simp: acyclic_p_def)

lemma iter_fix: "p ! x = x \<Longrightarrow> ((\<lambda>i. p ! i) ^^ k) x = x"
  by (induction k) auto

lemma iter_root:
  "acyclic_p p h \<Longrightarrow> x < length p \<Longrightarrow> card {i. i < length p \<and> h i < h x} \<le> m
   \<Longrightarrow> p ! (((\<lambda>i. p ! i) ^^ m) x) = ((\<lambda>i. p ! i) ^^ m) x"
proof (induction m arbitrary: x)
  case 0
  have fin: "finite {i. i < length p \<and> h i < h x}" by simp
  show ?case
  proof (rule ccontr)
    assume "p ! (((\<lambda>i. p ! i) ^^ 0) x) \<noteq> ((\<lambda>i. p ! i) ^^ 0) x"
    then have nr: "p ! x \<noteq> x" by simp
    with 0 have "p ! x \<in> {i. i < length p \<and> h i < h x}" by (auto simp: acyclic_p_def)
    with 0(3) fin show False by auto
  qed
next
  case (Suc m)
  show ?case
  proof (cases "p ! x = x")
    case True
    then show ?thesis by (simp add: iter_fix)
  next
    case False
    let ?y = "p ! x"
    from Suc.prems False have y: "?y < length p" "h ?y < h x" by (auto simp: acyclic_p_def)
    have "{i. i < length p \<and> h i < h ?y} \<subset> {i. i < length p \<and> h i < h x}"
      using y by auto
    then have "card {i. i < length p \<and> h i < h ?y} < card {i. i < length p \<and> h i < h x}"
      by (intro psubset_card_mono) auto
    with Suc.prems(3) have "card {i. i < length p \<and> h i < h ?y} \<le> m" by simp
    from Suc.IH[OF Suc.prems(1) y(1) this] show ?thesis
      by (simp add: funpow_swap1)
  qed
qed

lemma card_below: "x < length p \<Longrightarrow> card {i. i < length p \<and> h i < (h x :: nat)} < length p"
proof -
  assume x: "x < length p"
  have sub: "{i. i < length p \<and> h i < h x} \<subseteq> {..<length p} - {x}" by auto
  have "card ({..<length p} - {x}) = length p - 1" using x by simp
  moreover have "card {i. i < length p \<and> h i < h x} \<le> card ({..<length p} - {x})"
    by (rule card_mono[OF _ sub]) simp
  ultimately show ?thesis using x by simp
qed

lemma rep_root: "acyclic_p p h \<Longrightarrow> x < length p \<Longrightarrow> rep p x < length p \<and> p ! rep p x = rep p x"
  using iter_root[of p h x "length p"] card_below[of x p h] iter_range[of p h x "length p"]
  by (simp add: rep_def)

lemma rep_fix: "p ! x = x \<Longrightarrow> rep p x = x"
  by (simp add: rep_def iter_fix)

lemma rep_step: "acyclic_p p h \<Longrightarrow> x < length p \<Longrightarrow> rep p (p ! x) = rep p x"
proof -
  assume a: "acyclic_p p h" "x < length p"
  have "rep p (p ! x) = ((\<lambda>i. p ! i) ^^ Suc (length p)) x"
    unfolding rep_def by (simp add: funpow_swap1)
  also have "\<dots> = p ! rep p x" by (simp add: rep_def)
  also have "\<dots> = rep p x" using rep_root[OF a] by simp
  finally show ?thesis .
qed

lemma rep_le: "acyclic_p p h \<Longrightarrow> x < length p \<Longrightarrow> h (rep p x) \<le> h x"
proof (induction "h x" arbitrary: x rule: less_induct)
  case less
  show ?case
  proof (cases "p ! x = x")
    case True
    then show ?thesis by (simp add: rep_fix)
  next
    case False
    with less.prems have y: "p ! x < length p" "h (p ! x) < h x" by (auto simp: acyclic_p_def)
    from less.hyps[OF y(2) less.prems(1) y(1)] have "h (rep p (p ! x)) \<le> h (p ! x)" .
    with y rep_step[OF less.prems] show ?thesis by simp
  qed
qed

lemma rep_less: "acyclic_p p h \<Longrightarrow> x < length p \<Longrightarrow> p ! x \<noteq> x \<Longrightarrow> h (rep p x) < h x"
proof -
  assume a: "acyclic_p p h" "x < length p" "p ! x \<noteq> x"
  then have y: "p ! x < length p" "h (p ! x) < h x" by (auto simp: acyclic_p_def)
  from rep_le[OF a(1) y(1)] rep_step[OF a(1,2)] y show ?thesis by simp
qed

lemma rep_rep: "acyclic_p p h \<Longrightarrow> x < length p \<Longrightarrow> rep p (rep p x) = rep p x"
  using rep_root rep_fix by blast

text \<open>Path compression: pointing a key at its representative changes no representative.\<close>

lemma compress_acyclic:
  "acyclic_p p h \<Longrightarrow> x < length p \<Longrightarrow> acyclic_p (p[x := rep p x]) h"
  unfolding acyclic_p_def
proof (intro allI impI)
  fix i
  assume a: "\<forall>i<length p. p ! i < length p \<and> (p ! i \<noteq> i \<longrightarrow> h (p ! i) < h i)"
    and x: "x < length p" and i: "i < length (p[x := rep p x])"
  have ac: "acyclic_p p h" using a by (simp add: acyclic_p_def)
  show "p[x := rep p x] ! i < length (p[x := rep p x]) \<and>
        (p[x := rep p x] ! i \<noteq> i \<longrightarrow> h (p[x := rep p x] ! i) < h i)"
  proof (cases "i = x")
    case True
    have r: "rep p x < length p" using rep_root[OF ac x] by simp
    have "rep p x \<noteq> x \<longrightarrow> h (rep p x) < h x"
    proof
      assume "rep p x \<noteq> x"
      then have "p ! x \<noteq> x" using rep_fix[of p x] by auto
      from rep_less[OF ac x this] show "h (rep p x) < h x" .
    qed
    with r True x show ?thesis by simp
  next
    case False
    then show ?thesis using a i by auto
  qed
qed

lemma compress_rep:
  assumes ac: "acyclic_p p h" and x: "x < length p" and i: "i < length p"
  shows "rep (p[x := rep p x]) i = rep p i"
  using i
proof (induction "h i" arbitrary: i rule: less_induct)
  case less
  let ?q = "p[x := rep p x]"
  have acq: "acyclic_p ?q h" by (rule compress_acyclic[OF ac x])
  have iq: "i < length ?q" using less.prems by simp
  show ?case
  proof (cases "p ! i = i")
    case True
    then have "?q ! i = i" using less.prems x by (cases "i = x") (auto simp: rep_fix)
    with True show ?thesis by (simp add: rep_fix)
  next
    case False
    show ?thesis
    proof (cases "i = x")
      case True
      let ?r = "rep p x"
      have r: "?r < length p" "p ! ?r = ?r" using rep_root[OF ac x] by auto
      have rx: "?r \<noteq> x" using False True r by auto
      then have "?q ! ?r = ?r" using r by simp
      then have "rep ?q ?r = ?r" by (rule rep_fix)
      moreover have "rep ?q (?q ! x) = rep ?q x" using rep_step[OF acq iq] True by simp
      moreover have "?q ! x = ?r" using x by simp
      ultimately show ?thesis using True by simp
    next
      case neq: False
      have j: "p ! i < length p" "h (p ! i) < h i" using ac less.prems False by (auto simp: acyclic_p_def)
      have "rep ?q (?q ! i) = rep ?q i" using rep_step[OF acq iq] .
      moreover have "?q ! i = p ! i" using neq by simp
      moreover have "rep ?q (p ! i) = rep p (p ! i)" using less.hyps[OF j(2) j(1)] .
      moreover have "rep p (p ! i) = rep p i" using rep_step[OF ac less.prems] .
      ultimately show ?thesis by simp
    qed
  qed
qed

lemma root_iff_rep: "acyclic_p p h \<Longrightarrow> i < length p \<Longrightarrow> p ! i = i \<longleftrightarrow> rep p i = i"
  using rep_fix rep_root by metis

lemma find_f_ok:
  "acyclic_p p h \<Longrightarrow> x < length p \<Longrightarrow> card {i. i < length p \<and> h i < h x} < m \<Longrightarrow>
   \<exists>p'. find_f m p x = Ok (p', rep p x) \<and> length p' = length p \<and> acyclic_p p' h \<and>
        (\<forall>i<length p. rep p' i = rep p i)"
proof (induction m arbitrary: x)
  case 0
  then show ?case by simp
next
  case (Suc m)
  show ?case
  proof (cases "p ! x = x")
    case True
    with Suc.prems show ?thesis by (simp add: rep_fix)
  next
    case False
    let ?y = "p ! x"
    from Suc.prems False have y: "?y < length p" "h ?y < h x" by (auto simp: acyclic_p_def)
    have sub: "{i. i < length p \<and> h i < h ?y} \<subseteq> {i. i < length p \<and> h i < h x} - {?y}"
      using y by auto
    have "card ({i. i < length p \<and> h i < h x} - {?y}) < card {i. i < length p \<and> h i < h x}"
      using y by (intro card_Diff1_less) auto
    moreover have "card {i. i < length p \<and> h i < h ?y} \<le> card ({i. i < length p \<and> h i < h x} - {?y})"
      by (rule card_mono[OF _ sub]) simp
    ultimately have "card {i. i < length p \<and> h i < h ?y} < m" using Suc.prems(3) by simp
    from Suc.IH[OF Suc.prems(1) y(1) this] obtain p1 where
      p1: "find_f m p ?y = Ok (p1, rep p ?y)" "length p1 = length p" "acyclic_p p1 h"
          "\<forall>i<length p. rep p1 i = rep p i" by blast
    have rx: "rep p ?y = rep p x" by (rule rep_step[OF Suc.prems(1,2)])
    have r1: "rep p1 x = rep p x" using p1(4) Suc.prems(2) by simp
    have x1: "x < length p1" using p1(2) Suc.prems(2) by simp
    have a: "acyclic_p (p1[x := rep p1 x]) h" by (rule compress_acyclic[OF p1(3) x1])
    have b: "\<forall>i<length p. rep (p1[x := rep p1 x]) i = rep p i"
      using compress_rep[OF p1(3) x1] p1(2,4) by simp
    have "find_f (Suc m) p x = Ok (p1[x := rep p x], rep p x)"
      using False Suc.prems(2) p1(1) rx by simp
    with a b r1 p1(2) show ?thesis by simp
  qed
qed

lemma find_f_bad: "length p \<le> x \<Longrightarrow> find_f (Suc m) p x = Err BadKey"
  by simp

lemma find_ok:
  assumes "uf_inv uf" and "x < length (parent uf)"
  shows "\<exists>uf'. find uf x = Ok (uf', rep (parent uf) x) \<and> uf_same uf uf'"
proof -
  from assms(1) obtain h where h: "acyclic_p (parent uf) h" and rk: "length (rank uf) = length (parent uf)"
    by (auto simp: uf_inv_def)
  have "card {i. i < length (parent uf) \<and> h i < h x} < Suc (length (parent uf))"
    using card_below[OF assms(2), of h] by simp
  from find_f_ok[OF h assms(2) this] obtain p' where
    p': "find_f (Suc (length (parent uf))) (parent uf) x = Ok (p', rep (parent uf) x)"
        "length p' = length (parent uf)" "acyclic_p p' h"
        "\<forall>i<length (parent uf). rep p' i = rep (parent uf) i" by blast
  have "find uf x = Ok (uf\<lparr>parent := p'\<rparr>, rep (parent uf) x)"
    unfolding find_def p'(1) by simp
  moreover have "uf_same uf (uf\<lparr>parent := p'\<rparr>)"
    using p' rk by (auto simp: uf_same_def uf_inv_def)
  ultimately show ?thesis by blast
qed

lemma find_bad: "length (parent uf) \<le> x \<Longrightarrow> find uf x = Err BadKey"
  by (simp add: find_def)

lemma uf_same_refl: "uf_inv uf \<Longrightarrow> uf_same uf uf"
  by (simp add: uf_same_def)

lemma uf_same_trans: "uf_same a b \<Longrightarrow> uf_same b c \<Longrightarrow> uf_same a c"
  by (simp add: uf_same_def)

lemma uf_same_inv: "uf_same a b \<Longrightarrow> uf_inv b"
  by (simp add: uf_same_def)

lemma uf_same_length: "uf_same a b \<Longrightarrow> length (parent b) = length (parent a)"
  by (simp add: uf_same_def)

lemma uf_same_rep: "uf_same a b \<Longrightarrow> i < length (parent a) \<Longrightarrow> rep (parent b) i = rep (parent a) i"
  by (simp add: uf_same_def)

lemma uf_same_roots: 
  assumes "uf_inv a" and "uf_same a b"
  shows "roots (parent b) = roots (parent a)"
proof -
  from assms obtain h h' where h: "acyclic_p (parent a) h" "acyclic_p (parent b) h'"
    by (auto simp: uf_inv_def uf_same_def)
  have len: "length (parent b) = length (parent a)" using assms(2) by (simp add: uf_same_def)
  have "\<And>i. i < length (parent a) \<Longrightarrow> (parent b ! i = i) = (parent a ! i = i)"
    using root_iff_rep[OF h(1)] root_iff_rep[OF h(2)] len uf_same_rep[OF assms(2)] by simp
  then show ?thesis unfolding roots_def len by auto
qed

lemma uf_same_nroots: "uf_inv a \<Longrightarrow> uf_same a b \<Longrightarrow> nroots b = nroots a"
  by (simp add: nroots_def uf_same_roots)

text \<open>Linking one root under another.\<close>

lemma link_acyclic:
  assumes ac: "acyclic_p p h" and c: "c < length p" "p ! c = c" and r: "r < length p" "p ! r = r"
    and ne: "c \<noteq> r"
  shows "acyclic_p (p[c := r]) (\<lambda>i. if i = r then 0 else Suc (h i))"
  unfolding acyclic_p_def
proof (intro allI impI)
  fix i
  assume i: "i < length (p[c := r])"
  let ?q = "p[c := r]" and ?h = "\<lambda>i. if i = r then 0 else Suc (h i)"
  show "?q ! i < length ?q \<and> (?q ! i \<noteq> i \<longrightarrow> ?h (?q ! i) < ?h i)"
  proof (cases "i = c")
    case True
    then show ?thesis using c r ne by simp
  next
    case False
    then have q: "?q ! i = p ! i" by simp
    have rng: "p ! i < length p" using ac i by (simp add: acyclic_p_def)
    show ?thesis
    proof (cases "p ! i = i")
      case True
      with q rng show ?thesis by simp
    next
      case n: False
      then have ir: "i \<noteq> r" using r by auto
      have lt: "h (p ! i) < h i" using ac i n by (simp add: acyclic_p_def)
      have "?h (p ! i) < ?h i"
      proof (cases "p ! i = r")
        case True
        with ir show ?thesis by simp
      next
        case False
        with ir lt show ?thesis by simp
      qed
      with q rng r lt ir show ?thesis by simp
    qed
  qed
qed

lemma link_roots:
  assumes c: "c < length p" "p ! c = c" and r: "r < length p" "p ! r = r" and ne: "c \<noteq> r"
  shows "roots (p[c := r]) = roots p - {c}"
proof -
  have "\<And>i. i < length p \<Longrightarrow> (p[c := r] ! i = i) = (p ! i = i \<and> i \<noteq> c)"
    using assms by (simp add: nth_list_update)
  then show ?thesis unfolding roots_def by auto
qed

lemma link_nroots:
  assumes c: "c < length p" "p ! c = c" and r: "r < length p" "p ! r = r" and ne: "c \<noteq> r"
  shows "Suc (card (roots (p[c := r]))) = card (roots p)"
proof -
  have fin: "finite (roots p)" by (simp add: roots_def)
  have "c \<in> roots p" using c by (simp add: roots_def)
  from card.remove[OF fin this] have "Suc (card (roots p - {c})) = card (roots p)"
    by simp
  with link_roots[OF assms] show ?thesis by simp
qed

lemma uf_invI: "length (rank uf) = length (parent uf) \<Longrightarrow> acyclic_p (parent uf) h \<Longrightarrow> uf_inv uf"
  unfolding uf_inv_def by blast

lemma union_linked:
  "union uf x y = Ok (U, Some (a, b)) \<Longrightarrow> uf_inv U \<Longrightarrow>
   length (parent U) = length (parent uf) \<Longrightarrow> Suc (nroots U) = nroots uf \<Longrightarrow>
   (\<exists>e. union uf x y = Err e)
       \<or> (\<exists>uf'. union uf x y = Ok (uf', None) \<and> uf_same uf uf')
       \<or> (\<exists>uf' a b. union uf x y = Ok (uf', Some (a, b)) \<and> uf_inv uf' \<and>
             length (parent uf') = length (parent uf) \<and> Suc (nroots uf') = nroots uf)"
  by blast

lemma union_cases:
  assumes inv: "uf_inv uf"
  shows "(\<exists>e. union uf x y = Err e)
       \<or> (\<exists>uf'. union uf x y = Ok (uf', None) \<and> uf_same uf uf')
       \<or> (\<exists>uf' a b. union uf x y = Ok (uf', Some (a, b)) \<and> uf_inv uf' \<and>
             length (parent uf') = length (parent uf) \<and> Suc (nroots uf') = nroots uf)"
proof (cases "x < length (parent uf) \<and> y < length (parent uf)")
  case False
  show ?thesis
  proof (cases "x < length (parent uf)")
    case True
    from find_ok[OF inv True] obtain uf1 where
      f1: "find uf x = Ok (uf1, rep (parent uf) x)" "uf_same uf uf1" by blast
    from False True have "length (parent uf1) \<le> y" using uf_same_length[OF f1(2)] by simp
    from find_bad[OF this] f1(1) have "union uf x y = Err BadKey" by (simp add: union_def)
    then show ?thesis by blast
  next
    case False
    then have "union uf x y = Err BadKey" by (simp add: union_def find_bad)
    then show ?thesis by blast
  qed
next
  case True
  then have x: "x < length (parent uf)" and y: "y < length (parent uf)" by auto
  from find_ok[OF inv x] obtain uf1 where
    f1: "find uf x = Ok (uf1, rep (parent uf) x)" "uf_same uf uf1" by blast
  have inv1: "uf_inv uf1" by (rule uf_same_inv[OF f1(2)])
  have y1: "y < length (parent uf1)" using y uf_same_length[OF f1(2)] by simp
  from find_ok[OF inv1 y1] obtain uf2 where
    f2: "find uf1 y = Ok (uf2, rep (parent uf1) y)" "uf_same uf1 uf2" by blast
  have s2: "uf_same uf uf2" by (rule uf_same_trans[OF f1(2) f2(2)])
  have inv2: "uf_inv uf2" by (rule uf_same_inv[OF s2])
  have len2: "length (parent uf2) = length (parent uf)" by (rule uf_same_length[OF s2])
  let ?rx = "rep (parent uf) x" and ?ry = "rep (parent uf1) y"
  from inv obtain h where h: "acyclic_p (parent uf) h" by (auto simp: uf_inv_def)
  from inv1 obtain h1 where h1: "acyclic_p (parent uf1) h1" by (auto simp: uf_inv_def)
  from inv2 obtain h2 where h2: "acyclic_p (parent uf2) h2" and rk2: "length (rank uf2) = length (parent uf2)"
    by (auto simp: uf_inv_def)
  have "?rx \<in> roots (parent uf)" using rep_root[OF h x] by (simp add: roots_def)
  then have rx2: "?rx \<in> roots (parent uf2)" using uf_same_roots[OF inv s2] by simp
  have "?ry \<in> roots (parent uf1)" using rep_root[OF h1 y1] by (simp add: roots_def)
  then have ry2: "?ry \<in> roots (parent uf2)" using uf_same_roots[OF inv1 f2(2)] by simp
  have rx: "?rx < length (parent uf2)" "parent uf2 ! ?rx = ?rx" using rx2 by (auto simp: roots_def)
  have ry: "?ry < length (parent uf2)" "parent uf2 ! ?ry = ?ry" using ry2 by (auto simp: roots_def)
  have nr: "nroots uf2 = nroots uf" by (rule uf_same_nroots[OF inv s2])
  show ?thesis
  proof (cases "?rx = ?ry")
    case True
    then have "union uf x y = Ok (uf2, None)" using f1(1) f2(1) by (simp add: union_def)
    with s2 show ?thesis by blast
  next
    case ne: False
    have A: "uf_inv (uf2\<lparr>parent := (parent uf2)[?rx := ?ry]\<rparr>)"
    proof (rule uf_invI)
      show "length (rank (uf2\<lparr>parent := (parent uf2)[?rx := ?ry]\<rparr>))
            = length (parent (uf2\<lparr>parent := (parent uf2)[?rx := ?ry]\<rparr>))" using rk2 by simp
      show "acyclic_p (parent (uf2\<lparr>parent := (parent uf2)[?rx := ?ry]\<rparr>))
              (\<lambda>i. if i = ?ry then 0 else Suc (h2 i))"
        using link_acyclic[OF h2 rx ry ne] by simp
    qed
    have B: "uf_inv (uf2\<lparr>parent := (parent uf2)[?ry := ?rx]\<rparr>)"
    proof (rule uf_invI)
      show "length (rank (uf2\<lparr>parent := (parent uf2)[?ry := ?rx]\<rparr>))
            = length (parent (uf2\<lparr>parent := (parent uf2)[?ry := ?rx]\<rparr>))" using rk2 by simp
      show "acyclic_p (parent (uf2\<lparr>parent := (parent uf2)[?ry := ?rx]\<rparr>))
              (\<lambda>i. if i = ?rx then 0 else Suc (h2 i))"
        using link_acyclic[OF h2 ry rx ne[symmetric]] by simp
    qed
    have C: "uf_inv (uf2\<lparr>parent := (parent uf2)[?ry := ?rx],
                        rank := (rank uf2)[?rx := rank uf2 ! ?rx + 1]\<rparr>)"
    proof (rule uf_invI)
      show "length (rank (uf2\<lparr>parent := (parent uf2)[?ry := ?rx],
                        rank := (rank uf2)[?rx := rank uf2 ! ?rx + 1]\<rparr>))
            = length (parent (uf2\<lparr>parent := (parent uf2)[?ry := ?rx],
                        rank := (rank uf2)[?rx := rank uf2 ! ?rx + 1]\<rparr>))" using rk2 by simp
      show "acyclic_p (parent (uf2\<lparr>parent := (parent uf2)[?ry := ?rx],
                        rank := (rank uf2)[?rx := rank uf2 ! ?rx + 1]\<rparr>))
              (\<lambda>i. if i = ?rx then 0 else Suc (h2 i))"
        using link_acyclic[OF h2 ry rx ne[symmetric]] by simp
    qed
    have nA: "Suc (card (roots ((parent uf2)[?rx := ?ry]))) = nroots uf"
      using link_nroots[OF rx ry ne] nr by (simp add: nroots_def)
    have nB: "Suc (card (roots ((parent uf2)[?ry := ?rx]))) = nroots uf"
      using link_nroots[OF ry rx ne[symmetric]] nr by (simp add: nroots_def)
    consider (lt) "rank uf2 ! ?rx < rank uf2 ! ?ry" | (gt) "rank uf2 ! ?rx > rank uf2 ! ?ry"
      | (eq) "rank uf2 ! ?rx = rank uf2 ! ?ry" by linarith
    then show ?thesis
    proof cases
      case lt
      then have "union uf x y = Ok (uf2\<lparr>parent := (parent uf2)[?rx := ?ry]\<rparr>, Some (?ry, ?rx))"
        using f1(1) f2(1) ne by (simp add: union_def)
      then show ?thesis
      proof (rule union_linked)
        show "uf_inv (uf2\<lparr>parent := (parent uf2)[?rx := ?ry]\<rparr>)" by (rule A)
        show "length (parent (uf2\<lparr>parent := (parent uf2)[?rx := ?ry]\<rparr>)) = length (parent uf)"
          using len2 by simp
        show "Suc (nroots (uf2\<lparr>parent := (parent uf2)[?rx := ?ry]\<rparr>)) = nroots uf"
          using nA by (simp add: nroots_def)
      qed
    next
      case gt
      then have "union uf x y = Ok (uf2\<lparr>parent := (parent uf2)[?ry := ?rx]\<rparr>, Some (?rx, ?ry))"
        using f1(1) f2(1) ne by (simp add: union_def)
      then show ?thesis
      proof (rule union_linked)
        show "uf_inv (uf2\<lparr>parent := (parent uf2)[?ry := ?rx]\<rparr>)" by (rule B)
        show "length (parent (uf2\<lparr>parent := (parent uf2)[?ry := ?rx]\<rparr>)) = length (parent uf)"
          using len2 by simp
        show "Suc (nroots (uf2\<lparr>parent := (parent uf2)[?ry := ?rx]\<rparr>)) = nroots uf"
          using nB by (simp add: nroots_def)
      qed
    next
      case eq
      then have "union uf x y = Ok (uf2\<lparr>parent := (parent uf2)[?ry := ?rx],
                        rank := (rank uf2)[?rx := rank uf2 ! ?rx + 1]\<rparr>, Some (?rx, ?ry))"
        using f1(1) f2(1) ne by (simp add: union_def)
      then show ?thesis
      proof (rule union_linked)
        show "uf_inv (uf2\<lparr>parent := (parent uf2)[?ry := ?rx],
                        rank := (rank uf2)[?rx := rank uf2 ! ?rx + 1]\<rparr>)" by (rule C)
        show "length (parent (uf2\<lparr>parent := (parent uf2)[?ry := ?rx],
                        rank := (rank uf2)[?rx := rank uf2 ! ?rx + 1]\<rparr>)) = length (parent uf)"
          using len2 by simp
        show "Suc (nroots (uf2\<lparr>parent := (parent uf2)[?ry := ?rx],
                        rank := (rank uf2)[?rx := rank uf2 ! ?rx + 1]\<rparr>)) = nroots uf"
          using nB by (simp add: nroots_def)
      qed
    qed
  qed
qed


lemma find_all_cases:
  "uf_inv uf \<Longrightarrow>
   (\<exists>e. find_all uf cs = Err e) \<or>
   (\<exists>uf'. find_all uf cs = Ok (uf', map (rep (parent uf)) cs) \<and> uf_same uf uf' \<and>
          (\<forall>c\<in>set cs. c < length (parent uf)))"
proof (induction cs arbitrary: uf)
  case Nil
  then show ?case by (simp add: uf_same_refl)
next
  case (Cons c cs)
  show ?case
  proof (cases "c < length (parent uf)")
    case False
    then show ?thesis by (simp add: find_bad)
  next
    case True
    from find_ok[OF Cons.prems True] obtain uf1 where
      f1: "find uf c = Ok (uf1, rep (parent uf) c)" "uf_same uf uf1" by blast
    from Cons.IH[OF uf_same_inv[OF f1(2)]] show ?thesis
    proof
      assume "\<exists>e. find_all uf1 cs = Err e"
      then show ?thesis using f1(1) by auto
    next
      assume "\<exists>uf'. find_all uf1 cs = Ok (uf', map (rep (parent uf1)) cs) \<and> uf_same uf1 uf' \<and>
          (\<forall>c\<in>set cs. c < length (parent uf1))"
      then obtain uf2 where f2: "find_all uf1 cs = Ok (uf2, map (rep (parent uf1)) cs)"
        "uf_same uf1 uf2" "\<forall>c\<in>set cs. c < length (parent uf1)" by blast
      have len: "length (parent uf1) = length (parent uf)" by (rule uf_same_length[OF f1(2)])
      have "map (rep (parent uf1)) cs = map (rep (parent uf)) cs"
        using f2(3) len uf_same_rep[OF f1(2)] by simp
      then have "find_all uf (c # cs) = Ok (uf2, map (rep (parent uf)) (c # cs))"
        using f1(1) f2(1) by simp
      moreover have "uf_same uf uf2" by (rule uf_same_trans[OF f1(2) f2(2)])
      ultimately show ?thesis using True f2(3) len by auto
    qed
  qed
qed

lemma canonicalize_cases:
  assumes "uf_inv uf"
  shows "(\<exists>e. canonicalize uf n = Err e) \<or>
   (\<exists>uf'. canonicalize uf n = Ok (uf', ENode (en_op n) (map (rep (parent uf)) (en_children n)))
          \<and> uf_same uf uf' \<and> (\<forall>c\<in>set (en_children n). c < length (parent uf)))"
  using find_all_cases[OF assms, of "en_children n"] by (auto simp: canonicalize_def)

lemma find_cases:
  assumes "uf_inv uf"
  shows "(\<exists>e. find uf x = Err e) \<or>
         (\<exists>uf'. find uf x = Ok (uf', rep (parent uf) x) \<and> uf_same uf uf' \<and> x < length (parent uf))"
  using find_ok[OF assms, of x] find_bad[of uf x] by (cases "x < length (parent uf)") auto

lemma find_opt_cases:
  assumes "uf_inv uf"
  shows "(\<exists>e. find_opt uf x = Err e) \<or> (\<exists>uf' r. find_opt uf x = Ok (uf', r) \<and> uf_same uf uf')"
proof (cases x)
  case None
  then show ?thesis using assms by (simp add: find_opt_def uf_same_refl)
next
  case (Some k)
  with find_cases[OF assms, of k] show ?thesis by (auto simp: find_opt_def)
qed

lemma connected_ok:
  assumes inv: "uf_inv uf" and x: "x < length (parent uf)" and y: "y < length (parent uf)"
  shows "\<exists>uf'. connected uf x y = Ok (uf', rep (parent uf) x = rep (parent uf) y) \<and> uf_same uf uf'"
proof -
  from find_ok[OF inv x] obtain uf1 where
    f1: "find uf x = Ok (uf1, rep (parent uf) x)" "uf_same uf uf1" by blast
  have y1: "y < length (parent uf1)" using y uf_same_length[OF f1(2)] by simp
  from find_ok[OF uf_same_inv[OF f1(2)] y1] obtain uf2 where
    f2: "find uf1 y = Ok (uf2, rep (parent uf1) y)" "uf_same uf1 uf2" by blast
  have "rep (parent uf1) y = rep (parent uf) y" by (rule uf_same_rep[OF f1(2) y])
  then have "connected uf x y = Ok (uf2, rep (parent uf) x = rep (parent uf) y)"
    using f1(1) f2(1) by (simp add: connected_def)
  with uf_same_trans[OF f1(2) f2(2)] show ?thesis by blast
qed

lemma extend_acyclic:
  "acyclic_p p h \<Longrightarrow> acyclic_p (p @ [length p]) h"
  unfolding acyclic_p_def
proof (intro allI impI)
  fix i
  assume a: "\<forall>i<length p. p ! i < length p \<and> (p ! i \<noteq> i \<longrightarrow> h (p ! i) < h i)"
    and i: "i < length (p @ [length p])"
  show "(p @ [length p]) ! i < length (p @ [length p]) \<and>
        ((p @ [length p]) ! i \<noteq> i \<longrightarrow> h ((p @ [length p]) ! i) < h i)"
  proof (cases "i < length p")
    case True
    then have "(p @ [length p]) ! i = p ! i" by (simp add: nth_append)
    with a True show ?thesis by auto
  next
    case False
    with i have "i = length p" by simp
    then show ?thesis by simp
  qed
qed

lemma extend_rep:
  assumes ac: "acyclic_p p h" and i: "i < length p"
  shows "rep (p @ [length p]) i = rep p i"
  using i
proof (induction "h i" arbitrary: i rule: less_induct)
  case less
  let ?q = "p @ [length p]"
  have acq: "acyclic_p ?q h" by (rule extend_acyclic[OF ac])
  have iq: "i < length ?q" using less.prems by simp
  have qi: "?q ! i = p ! i" using less.prems by (simp add: nth_append)
  show ?case
  proof (cases "p ! i = i")
    case True
    with qi show ?thesis by (simp add: rep_fix)
  next
    case False
    have j: "p ! i < length p" "h (p ! i) < h i" using ac less.prems False by (auto simp: acyclic_p_def)
    have "rep ?q (?q ! i) = rep ?q i" by (rule rep_step[OF acq iq])
    moreover have "rep ?q (p ! i) = rep p (p ! i)" by (rule less.hyps[OF j(2) j(1)])
    moreover have "rep p (p ! i) = rep p i" by (rule rep_step[OF ac less.prems])
    ultimately show ?thesis using qi by simp
  qed
qed

lemma uf_extend_inv:
  assumes "uf_inv uf"
  shows "uf_inv (fst (uf_extend uf))"
proof -
  from assms obtain h where h: "acyclic_p (parent uf) h" and rk: "length (rank uf) = length (parent uf)"
    by (auto simp: uf_inv_def)
  show ?thesis
  proof (rule uf_invI)
    show "length (rank (fst (uf_extend uf))) = length (parent (fst (uf_extend uf)))"
      using rk by (simp add: uf_extend_def Let_def)
    show "acyclic_p (parent (fst (uf_extend uf))) h"
      using extend_acyclic[OF h] by (simp add: uf_extend_def Let_def)
  qed
qed

lemma uf_extend_connected:
  assumes inv: "uf_inv uf" and x: "x < length (parent uf)" and y: "y < length (parent uf)"
  shows "\<exists>u u' b. connected uf x y = Ok (u, b) \<and> connected (fst (uf_extend uf)) x y = Ok (u', b)"
proof -
  from inv obtain h where h: "acyclic_p (parent uf) h" by (auto simp: uf_inv_def)
  let ?e = "fst (uf_extend uf)"
  have pe: "parent ?e = parent uf @ [length (parent uf)]" by (simp add: uf_extend_def Let_def)
  have xe: "x < length (parent ?e)" and ye: "y < length (parent ?e)" using x y pe by simp_all
  from connected_ok[OF inv x y] obtain u where
    c1: "connected uf x y = Ok (u, rep (parent uf) x = rep (parent uf) y)" by blast
  from connected_ok[OF uf_extend_inv[OF inv] xe ye] obtain u' where
    c2: "connected ?e x y = Ok (u', rep (parent ?e) x = rep (parent ?e) y)" by blast
  have "rep (parent ?e) x = rep (parent uf) x" "rep (parent ?e) y = rep (parent uf) y"
    unfolding pe using extend_rep[OF h x] extend_rep[OF h y] by simp_all
  with c1 c2 show ?thesis by simp
qed

lemma same_connected:
  assumes inv: "uf_inv uf" and s: "uf_same uf uf1" and x: "x < length (parent uf)" and y: "y < length (parent uf)"
  shows "\<exists>u u' b. connected uf x y = Ok (u, b) \<and> connected uf1 x y = Ok (u', b)"
proof -
  have x1: "x < length (parent uf1)" and y1: "y < length (parent uf1)"
    using x y uf_same_length[OF s] by simp_all
  from connected_ok[OF inv x y] obtain u where
    c1: "connected uf x y = Ok (u, rep (parent uf) x = rep (parent uf) y)" by blast
  from connected_ok[OF uf_same_inv[OF s] x1 y1] obtain u' where
    c2: "connected uf1 x y = Ok (u', rep (parent uf1) x = rep (parent uf1) y)" by blast
  from c1 c2 uf_same_rep[OF s x] uf_same_rep[OF s y] show ?thesis by simp
qed

lemma add_parents_frame:
  "add_parents cls cs enode eid = Ok cls' \<Longrightarrow>
   map fst cls' = map fst cls \<and>
   (\<forall>k c. map_of cls k = Some c \<longrightarrow>
      (\<exists>c'. map_of cls' k = Some c' \<and> nodes c' = nodes c \<and> originalNode c' = originalNode c))"
proof (induction cs arbitrary: cls)
  case Nil
  then show ?case by simp
next
  case (Cons child_id cs)
  from Cons.prems obtain child where ch: "map_of cls child_id = Some child"
    by (cases "map_of cls child_id") auto
  let ?cls1 = "AList.update child_id (child\<lparr>parents := AList.update enode eid (parents child)\<rparr>) cls"
  from Cons.prems ch have r: "add_parents ?cls1 cs enode eid = Ok cls'" by simp
  note ih = Cons.IH[OF r]
  have "child_id \<in> fst ` set cls" using ch by (rule map_of_SomeD[THEN imageI, of _ _ _ fst, simplified])
  then have keys1: "map fst ?cls1 = map fst cls" by (simp add: update_keys)
  have step: "\<And>k c. map_of cls k = Some c \<Longrightarrow>
      \<exists>c1. map_of ?cls1 k = Some c1 \<and> nodes c1 = nodes c \<and> originalNode c1 = originalNode c"
    using ch by (auto simp: update_conv')
  show ?case
  proof (intro conjI allI impI)
    show "map fst cls' = map fst cls" using ih keys1 by simp
  next
    fix k c assume "map_of cls k = Some c"
    from step[OF this] obtain c1 where c1: "map_of ?cls1 k = Some c1" "nodes c1 = nodes c"
      "originalNode c1 = originalNode c" by blast
    from ih c1(1) obtain c' where "map_of cls' k = Some c'" "nodes c' = nodes c1"
      "originalNode c' = originalNode c1" by blast
    with c1 show "\<exists>c'. map_of cls' k = Some c' \<and> nodes c' = nodes c \<and> originalNode c' = originalNode c"
      by simp
  qed
qed

lemma add_old:
  "canonicalize (unionFind g) enode = Ok (uf1, en) \<Longrightarrow> map_of (hashcons g) en = Some (Some eid) \<Longrightarrow>
   add g enode = Ok (g\<lparr>unionFind := uf1\<rparr>, eid)"
  by (simp add: add_def)

lemma add_new:
  "canonicalize (unionFind g) enode = Ok (uf1, en) \<Longrightarrow>
   map_of (hashcons g) en = None \<or> map_of (hashcons g) en = Some None \<Longrightarrow>
   add g enode =
     bnd (add_parents (AList.update (length (parent uf1)) (createSingletonEClass en) (classes g))
            (en_children en) en (length (parent uf1)))
       (\<lambda>cls'. Ok (g\<lparr>unionFind := fst (uf_extend uf1), classes := cls',
                      hashcons := AList.update en (Some (length (parent uf1))) (hashcons g)\<rparr>,
                  length (parent uf1)))"
  by (auto simp: add_def uf_extend_def Let_def)

lemma map_delete_split:
  assumes "k \<in> fst ` set m"
  shows "\<exists>xs e ys. m = xs @ e # ys \<and> fst e = k \<and>
           map_delete k m = (if ys = [] then xs else xs @ last ys # butlast ys)"
proof -
  define xs where "xs = takeWhile (\<lambda>e. fst e \<noteq> k) m"
  define d where "d = dropWhile (\<lambda>e. fst e \<noteq> k) m"
  from assms have "\<exists>e\<in>set m. \<not> fst e \<noteq> k" by auto
  then have dne: "d \<noteq> []" unfolding d_def by (simp add: dropWhile_eq_Nil_conv)
  then obtain e ys where d: "d = e # ys" by (cases d) auto
  have "\<not> fst (hd d) \<noteq> k" using dne unfolding d_def by (rule hd_dropWhile)
  then have e: "fst e = k" using d by simp
  have m: "m = xs @ e # ys"
    using takeWhile_dropWhile_id[of "\<lambda>e. fst e \<noteq> k" m] d unfolding xs_def d_def by simp
  have md: "map_delete k m =
      (if length xs = length m - 1 then butlast m else (butlast m)[length xs := last m])"
    using assms unfolding xs_def by (simp add: map_delete_def Let_def)
  have res: "map_delete k m = (if ys = [] then xs else xs @ last ys # butlast ys)"
  proof (cases "ys = []")
    case True
    have "length xs = length (xs @ e # ys) - 1" using True by simp
    moreover have "butlast (xs @ e # ys) = xs" using True by simp
    ultimately have "(if length xs = length (xs @ e # ys) - 1 then butlast (xs @ e # ys)
        else (butlast (xs @ e # ys))[length xs := last (xs @ e # ys)]) = xs" by simp
    with md m True show ?thesis by simp
  next
    case False
    have ne: "length xs \<noteq> length (xs @ e # ys) - 1" using False by (cases ys) auto
    have bl: "butlast (xs @ e # ys) = xs @ e # butlast ys" using False by (simp add: butlast_append)
    have la: "last (xs @ e # ys) = last ys" using False by simp
    have "(xs @ e # butlast ys)[length xs := last ys] = xs @ last ys # butlast ys"
      by (simp add: list_update_append)
    with ne bl la have "(if length xs = length (xs @ e # ys) - 1 then butlast (xs @ e # ys)
        else (butlast (xs @ e # ys))[length xs := last (xs @ e # ys)]) = xs @ last ys # butlast ys"
      by simp
    with md m False show ?thesis by simp
  qed
  from m e res show ?thesis by blast
qed

lemma map_delete_length: "k \<in> fst ` set m \<Longrightarrow> Suc (length (map_delete k m)) = length m"
proof -
  assume "k \<in> fst ` set m"
  from map_delete_split[OF this] obtain xs e ys where
    s: "m = xs @ e # ys" "map_delete k m = (if ys = [] then xs else xs @ last ys # butlast ys)"
    by blast
  show ?thesis
  proof (cases "ys = []")
    case True
    with s show ?thesis by simp
  next
    case False
    with s show ?thesis by simp
  qed
qed

lemma map_delete_keeps:
  assumes "k' \<in> fst ` set m" and "k' \<noteq> k"
  shows "k' \<in> fst ` set (map_delete k m)"
proof (cases "k \<in> fst ` set m")
  case False
  with assms show ?thesis by (simp add: map_delete_def)
next
  case True
  from map_delete_split[OF True] obtain xs e ys where
    s: "m = xs @ e # ys" "fst e = k"
       "map_delete k m = (if ys = [] then xs else xs @ last ys # butlast ys)"
    by blast
  from assms s(1,2) have k': "k' \<in> fst ` (set xs \<union> set ys)" by auto
  show ?thesis
  proof (cases "ys = []")
    case True
    with s k' show ?thesis by simp
  next
    case False
    then have "butlast ys @ [last ys] = ys" by simp
    then have "set ys = set (butlast ys @ [last ys])" by simp
    then have "set (last ys # butlast ys) = set ys" by auto
    with s False k' show ?thesis by (simp add: image_Un)
  qed
qed

declare merge_f.simps [simp del]

lemma update_present_length: "k \<in> fst ` set m \<Longrightarrow> length (AList.update k v m) = length m"
proof -
  assume "k \<in> fst ` set m"
  then have "map fst (AList.update k v m) = map fst m" by (simp add: update_keys)
  then have "length (map fst (AList.update k v m)) = length (map fst m)" by simp
  then show ?thesis by simp
qed

lemma map_of_key: "map_of m k = Some v \<Longrightarrow> k \<in> fst ` set m"
  by (rule map_of_SomeD[THEN imageI, of _ _ _ fst, simplified])

lemma nroots_le_length: "nroots uf \<le> length (parent uf)"
proof -
  have "roots (parent uf) \<subseteq> {..<length (parent uf)}" by (auto simp: roots_def)
  then have "card (roots (parent uf)) \<le> card {..<length (parent uf)}" by (intro card_mono) auto
  then show ?thesis by (simp add: nroots_def)
qed

lemma res_fine_bnd:
  assumes "res_fine g r" and "\<And>g'. r = Ok g' \<Longrightarrow> res_fine g' (k g')"
  shows "res_fine g (bnd r k)"
proof (cases r)
  case (Ok g')
  from assms(1) Ok have a: "uf_inv (unionFind g')" "nroots (unionFind g') \<le> nroots (unionFind g)"
    "length (classes g') \<le> length (classes g)" by (simp_all add: res_fine_def)
  from assms(2)[OF Ok] have b: "res_fine g' (k g')" .
  show ?thesis
  proof (cases "k g'")
    case (Ok g'')
    with b a \<open>r = Ok g'\<close> show ?thesis by (simp add: res_fine_def)
  next
    case (Err e)
    with \<open>r = Ok g'\<close> show ?thesis by (simp add: res_fine_def)
  next
    case OutOfFuel
    with b show ?thesis by (simp add: res_fine_def)
  qed
next
  case (Err e)
  then show ?thesis by (simp add: res_fine_def)
next
  case OutOfFuel
  with assms(1) show ?thesis by (simp add: res_fine_def)
qed

lemma merge_fine_drop:
  assumes "merge_fine g r"
  shows "res_fine g (bnd r (\<lambda>(g2, _). Ok g2))"
proof (cases r)
  case (Ok p)
  obtain g' b where p: "p = (g', b)" by (cases p)
  with assms Ok show ?thesis by (simp add: merge_fine_def res_fine_def)
next
  case (Err e)
  then show ?thesis by (simp add: res_fine_def)
next
  case OutOfFuel
  with assms show ?thesis by (simp add: merge_fine_def)
qed

lemma res_fine_same:
  assumes "uf_inv (unionFind g)" and "uf_same (unionFind g) (unionFind g1)"
    and "length (classes g1) \<le> length (classes g)"
    and "res_fine g1 r"
  shows "res_fine g r"
proof (cases r)
  case (Ok g')
  with assms(4) have "uf_inv (unionFind g')" "nroots (unionFind g') \<le> nroots (unionFind g1)"
    "length (classes g') \<le> length (classes g1)" by (simp_all add: res_fine_def)
  with uf_same_nroots[OF assms(1,2)] assms(3) Ok show ?thesis by (simp add: res_fine_def)
next
  case (Err e)
  then show ?thesis by (simp add: res_fine_def)
next
  case OutOfFuel
  with assms(4) show ?thesis by (simp add: res_fine_def)
qed

lemma repair_from_merge:
  assumes A: "\<And>g a b. uf_inv (unionFind g) \<Longrightarrow> nroots (unionFind g) \<le> f \<Longrightarrow>
                merge_fine g (merge_f f g a b)"
  shows "uf_inv (unionFind g) \<Longrightarrow> nroots (unionFind g) \<le> f \<Longrightarrow>
         res_fine g (repair_f f g e es dedup)"
proof (induction es arbitrary: g dedup)
  case Nil
  show ?case
  proof (cases "map_of (classes g) e")
    case None
    with Nil show ?thesis by (simp add: res_fine_def)
  next
    case (Some c)
    from update_present_length[OF map_of_key[OF Some]] Nil Some
    show ?thesis by (simp add: res_fine_def)
  qed
next
  case (Cons entry es)
  obtain pn pc where entry: "entry = (pn, pc)" by (cases entry)
  from canonicalize_cases[OF Cons.prems(1), of pn] show ?case
  proof
    assume "\<exists>err. canonicalize (unionFind g) pn = Err err"
    then show ?thesis using entry by (auto simp: res_fine_def)
  next
    assume "\<exists>uf'. canonicalize (unionFind g) pn
        = Ok (uf', ENode (en_op pn) (map (rep (parent (unionFind g))) (en_children pn)))
        \<and> uf_same (unionFind g) uf' \<and> (\<forall>c\<in>set (en_children pn). c < length (parent (unionFind g)))"
    then obtain uf1 nn where can: "canonicalize (unionFind g) pn = Ok (uf1, nn)"
      and s1: "uf_same (unionFind g) uf1" by blast
    from find_cases[OF uf_same_inv[OF s1], of pc] show ?thesis
    proof
      assume "\<exists>err. find uf1 pc = Err err"
      then show ?thesis using entry can by (auto simp: res_fine_def)
    next
      assume "\<exists>uf'. find uf1 pc = Ok (uf', rep (parent uf1) pc) \<and> uf_same uf1 uf' \<and>
                pc < length (parent uf1)"
      then obtain uf2 ne where fnd: "find uf1 pc = Ok (uf2, ne)" and s2: "uf_same uf1 uf2" by blast
      define g1 where "g1 = g\<lparr>unionFind := uf2,
          hashcons := AList.update nn (Some ne) (map_delete pn (hashcons g))\<rparr>"
      have s: "uf_same (unionFind g) (unionFind g1)"
        using uf_same_trans[OF s1 s2] by (simp add: g1_def)
      have inv1: "uf_inv (unionFind g1)" by (rule uf_same_inv[OF s])
      have nr1: "nroots (unionFind g1) \<le> f"
        using uf_same_nroots[OF Cons.prems(1) s] Cons.prems(2) by simp
      have cl1: "length (classes g1) \<le> length (classes g)" by (simp add: g1_def)
      define inner where "inner = (case map_of dedup nn of
                  None \<Rightarrow> Ok g1
                | Some newParentEid2 \<Rightarrow>
                    if newParentEid2 \<noteq> 0
                    then bnd (merge_f f g1 pc newParentEid2) (\<lambda>(g2, _). Ok g2)
                    else Ok g1)"
      have unfold: "repair_f f g e (entry # es) dedup
          = bnd inner (\<lambda>g2. repair_f f g2 e es (AList.update nn ne dedup))"
        unfolding inner_def g1_def using entry can fnd by (simp add: Let_def)
      have g1_fine: "res_fine g1 (Ok g1)" using inv1 by (simp add: res_fine_def)
      have inner_fine: "res_fine g1 inner"
      proof (cases "map_of dedup nn")
        case None
        with g1_fine show ?thesis by (simp add: inner_def)
      next
        case (Some e2)
        show ?thesis
        proof (cases "e2 = 0")
          case True
          with Some g1_fine show ?thesis by (simp add: inner_def)
        next
          case False
          from merge_fine_drop[OF A[OF inv1 nr1, of pc e2]] Some False
          show ?thesis by (simp add: inner_def)
        qed
      qed
      have "res_fine g1 (bnd inner (\<lambda>g2. repair_f f g2 e es (AList.update nn ne dedup)))"
      proof (rule res_fine_bnd[OF inner_fine])
        fix g' assume ok: "inner = Ok g'"
        with inner_fine have "uf_inv (unionFind g')" "nroots (unionFind g') \<le> nroots (unionFind g1)"
          by (simp_all add: res_fine_def)
        with nr1 show "res_fine g' (repair_f f g' e es (AList.update nn ne dedup))"
          by (intro Cons.IH) simp_all
      qed
      with unfold have "res_fine g1 (repair_f f g e (entry # es) dedup)" by simp
      from res_fine_same[OF Cons.prems(1) s cl1 this] show ?thesis .
    qed
  qed
qed

lemma bnd_eq_Ok: "bnd m f = Ok y \<longleftrightarrow> (\<exists>x. m = Ok x \<and> f x = Ok y)"
  by (cases m) auto

lemma union_distinct: "union uf x y = Ok (uf', Some (a, b)) \<Longrightarrow> a \<noteq> b"
  by (auto simp: union_def bnd_eq_Ok split: if_splits prod.splits)

lemma merge_from_repair:
  assumes B: "\<And>f' g e es d. Suc f' = fuel \<Longrightarrow> uf_inv (unionFind g) \<Longrightarrow>
                nroots (unionFind g) \<le> f' \<Longrightarrow> res_fine g (repair_f f' g e es d)"
    and inv: "uf_inv (unionFind g)" and nr: "nroots (unionFind g) \<le> fuel"
  shows "merge_fine g (merge_f fuel g a b)"
proof -
  note ms = merge_f.simps[of fuel g a b]
  from union_cases[OF inv, of a b] consider
      (err) err where "union (unionFind g) a b = Err err"
    | (none) uf1 where "union (unionFind g) a b = Ok (uf1, None)" "uf_same (unionFind g) uf1"
    | (some) uf1 newRootId oldRootId where
        "union (unionFind g) a b = Ok (uf1, Some (newRootId, oldRootId))" "uf_inv uf1"
        "length (parent uf1) = length (parent (unionFind g))"
        "Suc (nroots uf1) = nroots (unionFind g)"
    by blast
  then show ?thesis
  proof cases
    case err
    then show ?thesis by (simp add: ms merge_fine_def)
  next
    case none
    from none(1) have "merge_f fuel g a b = Ok (g\<lparr>unionFind := uf1\<rparr>, False)" by (simp add: ms)
    with uf_same_inv[OF none(2)] uf_same_nroots[OF inv none(2)] show ?thesis
      by (simp add: merge_fine_def)
  next
    case some
    note U = some(1) and inv1 = some(2) and nr1 = some(4)
    have ne: "newRootId \<noteq> oldRootId" by (rule union_distinct[OF U])
    show ?thesis
    proof (cases "map_of (classes g) oldRootId")
      case None
      with U show ?thesis by (simp add: ms merge_fine_def Let_def)
    next
      case old: (Some old)
      define eid where "eid = (case map_of (hashcons g) (originalNode old) of
                               None \<Rightarrow> None | Some v \<Rightarrow> v)"
      from canonicalize_cases[OF inv1, of "originalNode old"] consider
          (cerr) err where "canonicalize uf1 (originalNode old) = Err err"
        | (cok) uf2 cn where "canonicalize uf1 (originalNode old) = Ok (uf2, cn)" "uf_same uf1 uf2"
        by blast
      then show ?thesis
      proof cases
        case cerr
        with U old show ?thesis by (simp add: ms merge_fine_def Let_def)
      next
        case cok
        note can = cok(1) and s2 = cok(2)
        from find_opt_cases[OF uf_same_inv[OF s2], of eid] consider
            (ferr) err where "find_opt uf2 eid = Err err"
          | (fok) uf3 eid' where "find_opt uf2 eid = Ok (uf3, eid')" "uf_same uf2 uf3"
          by blast
        then show ?thesis
        proof cases
          case ferr
          with U old can show ?thesis by (simp add: ms merge_fine_def Let_def eid_def)
        next
          case fok
          note fo = fok(1) and s3 = fok(2)
          have s13: "uf_same uf1 uf3" by (rule uf_same_trans[OF s2 s3])
          have inv3: "uf_inv uf3" by (rule uf_same_inv[OF s3])
          have nr3: "Suc (nroots uf3) = nroots (unionFind g)"
            using uf_same_nroots[OF inv1 s13] nr1 by simp
          show ?thesis
          proof (cases "map_of (classes g) newRootId")
            case None
            with U old can fo show ?thesis by (simp add: ms merge_fine_def Let_def eid_def)
          next
            case new: (Some new)
            show ?thesis
            proof (cases fuel)
              case 0
              with nr nr3 show ?thesis by simp
            next
              case (Suc f)
              define new' where "new' = new\<lparr>nodes := set_union (nodes new) (nodes old),
                                             parents := map_concat (parents new) (parents old)\<rparr>"
              define g1 where "g1 = g\<lparr>unionFind := uf3,
                    classes := AList.update newRootId new' (map_delete oldRootId (classes g)),
                    hashcons := AList.update cn eid' (map_delete (originalNode old) (hashcons g))\<rparr>"
              have unfold: "merge_f fuel g a b
                  = bnd (repair_f f g1 newRootId (parents new') []) (\<lambda>g2. Ok (g2, True))"
                unfolding g1_def new'_def Suc using U old can fo new
                by (simp add: ms[unfolded Suc] Let_def eid_def)
              have inv_g1: "uf_inv (unionFind g1)" using inv3 by (simp add: g1_def)
              have nr_g1: "nroots (unionFind g1) \<le> f" using nr nr3 Suc by (simp add: g1_def)
              have "newRootId \<in> fst ` set (map_delete oldRootId (classes g))"
                by (rule map_delete_keeps[OF map_of_key[OF new] ne])
              then have "length (classes g1) = length (map_delete oldRootId (classes g))"
                by (simp add: g1_def update_present_length)
              with map_delete_length[OF map_of_key[OF old]]
              have len_g1: "Suc (length (classes g1)) = length (classes g)" by simp
              have rf: "res_fine g1 (repair_f f g1 newRootId (parents new') [])"
                by (rule B[OF Suc[symmetric] inv_g1 nr_g1])
              show ?thesis
              proof (cases "repair_f f g1 newRootId (parents new') []")
                case (Ok g2)
                with rf have "uf_inv (unionFind g2)" "nroots (unionFind g2) \<le> nroots (unionFind g1)"
                  "length (classes g2) \<le> length (classes g1)" by (simp_all add: res_fine_def)
                moreover have "nroots (unionFind g1) \<le> nroots (unionFind g)"
                  using nr3 by (simp add: g1_def)
                ultimately show ?thesis using unfold Ok len_g1 by (simp add: merge_fine_def)
              next
                case (Err e)
                with unfold show ?thesis by (simp add: merge_fine_def)
              next
                case OutOfFuel
                with rf show ?thesis by (simp add: res_fine_def)
              qed
            qed
          qed
        qed
      qed
    qed
  qed
qed

lemma merge_f_fine:
  "uf_inv (unionFind g) \<Longrightarrow> nroots (unionFind g) \<le> fuel \<Longrightarrow> merge_fine g (merge_f fuel g a b)"
proof (induction fuel arbitrary: g a b)
  case 0
  show ?case by (rule merge_from_repair[OF _ "0.prems"]) simp
next
  case (Suc f)
  show ?case
  proof (rule merge_from_repair[OF _ Suc.prems])
    fix f' and g :: EGraph and e es d
    assume "Suc f' = Suc f" and i: "uf_inv (unionFind g)" and n: "nroots (unionFind g) \<le> f'"
    then have f': "f' = f" by simp
    show "res_fine g (repair_f f' g e es d)"
      unfolding f' by (rule repair_from_merge[OF Suc.IH]) (use i n f' in simp_all)
  qed
qed

section \<open>Properties of the e-graph\<close>

text \<open>
  Claim C2: after every public operation every key of \<^verbatim>\<open>hashcons\<close> is canonical.
  The run \<open>keys_scenario\<close> adds \<^verbatim>\<open>(f a b)\<close>, \<^verbatim>\<open>c\<close> and \<^verbatim>\<open>d\<close> and
  merges \<^verbatim>\<open>c\<close> with \<^verbatim>\<open>a\<close>, then \<^verbatim>\<open>d\<close> with \<^verbatim>\<open>b\<close>. The second
  \<^verbatim>\<open>repair\<close> deletes the key \<^verbatim>\<open>f(0, 1)\<close> that the first one had already replaced
  by \<^verbatim>\<open>f(3, 1)\<close>; the key \<^verbatim>\<open>f(3, 1)\<close> stays, and its child \<open>1\<close> is no root.
\<close>

theorem merge_leaves_stale_hashcons_key:
  "bnd keys_scenario (\<lambda>g. Ok (parent (unionFind g), map fst (hashcons g), hashcons_canonical g))
   = Ok ([3, 4, 2, 3, 4],
         [ENode ''d'' [], ENode ''f'' [3, 1], ENode ''a'' [], ENode ''c'' [], ENode ''b'' [],
          ENode ''f'' [3, 4]],
         False)"
  by code_simp

text \<open>
  Claim C3: \<^verbatim>\<open>extractSmallest\<close> returns a term of minimum node count. In the run
  \<open>extract_scenario\<close> the class of \<^verbatim>\<open>(g c)\<close> also holds \<^verbatim>\<open>(h c c)\<close>; the
  extractor first finds \<^verbatim>\<open>(g c)\<close> of size 2, then accepts \<^verbatim>\<open>(h c c)\<close> of size 3,
  whose last child is searched under the bound 0, which the test \<^verbatim>\<open>upperBound < 0\<close>
  lets pass.
\<close>

theorem extractSmallest_not_smallest:
  "extract_scenario = Ok (XTerm ''h'' [XTerm ''c'' [], XTerm ''c'' []], Fin 3)"
  by code_simp

text \<open>
  Claim C4: for every pair that \<^verbatim>\<open>ematch\<close> yields, \<^verbatim>\<open>addPattern\<close> of the pattern
  under the substitution returns the matched class up to \<^verbatim>\<open>find\<close>. In the run
  \<open>ematch_scenario\<close> the pattern \<^verbatim>\<open>(f ?x)\<close> matches the node \<^verbatim>\<open>f(a, b)\<close> of
  class 2, since the zip of the children ends with the shorter list; \<^verbatim>\<open>addPattern\<close>
  then creates the class 3 for \<^verbatim>\<open>f(a)\<close>.
\<close>

theorem ematch_ignores_arity:
  "ematch_scenario = Ok ([([(''x'', 0)], 2)], 3, 3, 2)"
  by code_simp

text \<open>
  Claim C5: \<^verbatim>\<open>addTerm\<close> of the same term returns the same id up to \<^verbatim>\<open>find\<close>, also
  after merges. In the run \<open>idempotence_scenario\<close> the term \<^verbatim>\<open>(f a)\<close> gets the id
  1; after \<^verbatim>\<open>b\<close> was merged with \<^verbatim>\<open>a\<close> and \<^verbatim>\<open>c\<close> with \<^verbatim>\<open>(f a)\<close>,
  the value of \<^verbatim>\<open>hashcons\<close> for \<^verbatim>\<open>f(2)\<close> is \<^verbatim>\<open>undefined\<close>, and adding
  \<^verbatim>\<open>(f a)\<close> again creates the class 4, whose root is 4, while the root of 1 is 3.
\<close>

theorem addTerm_again_after_merges:
  "idempotence_scenario = Ok (1, 4, 3, 4)"
  by code_simp

text \<open>
  What \<^verbatim>\<open>add\<close> keeps in every e-graph with a well-formed union-find and class ids
  that are keys of it: the equivalence of the union-find on the ids allocated before the
  call, and the nodes and the original node of every class that was there before; the
  set of keys of \<^verbatim>\<open>classes\<close> stays as it is, or gains the fresh id with a class
  that holds one node.
\<close>

lemma add_frame:
  assumes inv: "uf_inv (unionFind g)"
    and keys: "\<forall>k\<in>set (map fst (classes g)). k < length (parent (unionFind g))"
    and add: "add g enode = Ok (g', e)"
  shows "(\<forall>x<length (parent (unionFind g)). \<forall>y<length (parent (unionFind g)).
           \<exists>u u' b. connected (unionFind g) x y = Ok (u, b) \<and>
                    connected (unionFind g') x y = Ok (u', b))
       \<and> (\<forall>k c. map_of (classes g) k = Some c \<longrightarrow>
             (\<exists>c'. map_of (classes g') k = Some c' \<and> nodes c' = nodes c \<and>
                   originalNode c' = originalNode c))
       \<and> (fst ` set (classes g') = fst ` set (classes g) \<or>
          (e = length (parent (unionFind g)) \<and>
           fst ` set (classes g') = insert e (fst ` set (classes g)) \<and>
           (\<exists>c. map_of (classes g') e = Some c \<and> nodes c = [originalNode c])))"
proof -
  let ?n = "length (parent (unionFind g))"
  from add have "\<not> (\<exists>err. canonicalize (unionFind g) enode = Err err)"
    by (auto simp: add_def)
  with canonicalize_cases[OF inv, of enode] obtain uf1 en where
    can: "canonicalize (unionFind g) enode = Ok (uf1, en)" and s1: "uf_same (unionFind g) uf1"
    by blast
  have inv1: "uf_inv uf1" by (rule uf_same_inv[OF s1])
  have len1: "length (parent uf1) = ?n" by (rule uf_same_length[OF s1])
  consider (old) eid where "map_of (hashcons g) en = Some (Some eid)"
    | (new) "map_of (hashcons g) en = None \<or> map_of (hashcons g) en = Some None"
    by (cases "map_of (hashcons g) en") auto
  then show ?thesis
  proof cases
    case old
    from add_old[OF can old] add have g': "g' = g\<lparr>unionFind := uf1\<rparr>" by simp
    have "\<forall>x<?n. \<forall>y<?n. \<exists>u u' b. connected (unionFind g) x y = Ok (u, b) \<and>
                    connected (unionFind g') x y = Ok (u', b)"
      using same_connected[OF inv s1] g' by simp
    moreover have "classes g' = classes g" using g' by simp
    ultimately show ?thesis by simp
  next
    case new
    let ?cls = "AList.update ?n (createSingletonEClass en) (classes g)"
    from add_new[OF can new] add len1 obtain cls' where
      ap: "add_parents ?cls (en_children en) en ?n = Ok cls'"
      and g': "g' = g\<lparr>unionFind := fst (uf_extend uf1), classes := cls',
                      hashcons := AList.update en (Some ?n) (hashcons g)\<rparr>"
      and e: "e = ?n"
      by (cases "add_parents ?cls (en_children en) en ?n") auto
    note fr = add_parents_frame[OF ap]
    have fresh: "?n \<notin> fst ` set (classes g)" using keys by auto
    have keys1: "map fst ?cls = map fst (classes g) @ [?n]" using fresh by (simp add: update_keys)
    have conn: "\<forall>x<?n. \<forall>y<?n. \<exists>u u' b. connected (unionFind g) x y = Ok (u, b) \<and>
                    connected (unionFind g') x y = Ok (u', b)"
    proof (intro allI impI)
      fix x y assume x: "x < ?n" and y: "y < ?n"
      from same_connected[OF inv s1 x y] obtain u u1 b where
        a: "connected (unionFind g) x y = Ok (u, b)" "connected uf1 x y = Ok (u1, b)" by blast
      from uf_extend_connected[OF inv1, of x y] x y len1 obtain u2 u3 b' where
        b: "connected uf1 x y = Ok (u2, b')" "connected (fst (uf_extend uf1)) x y = Ok (u3, b')"
        by auto
      from a b have "b' = b" by simp
      with a b g' show "\<exists>u u' b. connected (unionFind g) x y = Ok (u, b) \<and>
                    connected (unionFind g') x y = Ok (u', b)" by simp
    qed
    have old_classes: "\<forall>k c. map_of (classes g) k = Some c \<longrightarrow>
             (\<exists>c'. map_of (classes g') k = Some c' \<and> nodes c' = nodes c \<and>
                   originalNode c' = originalNode c)"
    proof (intro allI impI)
      fix k c assume kc: "map_of (classes g) k = Some c"
      then have "k \<in> fst ` set (classes g)" by (rule map_of_SomeD[THEN imageI, of _ _ _ fst, simplified])
      with fresh have "k \<noteq> ?n" by blast
      with kc have "map_of ?cls k = Some c" by (simp add: update_conv')
      with fr g' show "\<exists>c'. map_of (classes g') k = Some c' \<and> nodes c' = nodes c \<and>
                   originalNode c' = originalNode c" by simp
    qed
    have "map_of ?cls ?n = Some (createSingletonEClass en)" by (simp add: update_conv')
    with fr obtain c' where "map_of cls' ?n = Some c'" "nodes c' = nodes (createSingletonEClass en)"
      "originalNode c' = originalNode (createSingletonEClass en)" by blast
    then have newc: "\<exists>c. map_of (classes g') e = Some c \<and> nodes c = [originalNode c]"
      using g' e by (simp add: createSingletonEClass_def)
    have "map fst (classes g') = map fst (classes g) @ [e]" using fr keys1 g' e by simp
    then have "set (map fst (classes g')) = set (map fst (classes g) @ [e])" by simp
    then have "fst ` set (classes g') = insert e (fst ` set (classes g))" by simp
    with conn old_classes newc e show ?thesis by blast
  qed
qed

text \<open>
  Claim C10: \<^verbatim>\<open>add\<close> only allocates a fresh class and inserts new entries into the
  \<^verbatim>\<open>parents\<close> maps of the children of the new node; what the classes held before
  stays. In the run \<open>frame_scenario\<close> the classes 3 and 2 are left after the two merges,
  and the class 2 has the one parent entry \<^verbatim>\<open>f(2)\<close> with the class id 1. The second
  merge has left \<^verbatim>\<open>undefined\<close> as the value of \<^verbatim>\<open>hashcons\<close> for \<^verbatim>\<open>f(2)\<close>, so
  \<^verbatim>\<open>add\<close> of \<^verbatim>\<open>f(0)\<close>, a node of the class 3, allocates the class 4 and writes
  the id 4 over the id 1 in the entry that the class 2 had.
\<close>

theorem add_overwrites_parent_entry:
  "frame_scenario =
     Ok ([(ENode ''f'' [2], 1)], 4, [(ENode ''f'' [2], 4)], [3, 2], [3, 2, 4])"
  by code_simp

section \<open>Properties of the e-graph with a worklist\<close>

declare w_merge_f.simps [simp del] w_rebuild_f.simps [simp del] w_repair_f.simps [simp del]
  w_repair_loop.simps [simp del]

lemma le_res_refl [simp]: "le_res r r"
  by (simp add: le_res_def)

lemma le_res_OutOfFuel [simp]: "le_res OutOfFuel r"
  by (simp add: le_res_def)

lemma le_res_bnd:
  assumes "le_res m m'" and "\<And>x. le_res (k x) (k' x)"
  shows "le_res (bnd m k) (bnd m' k')"
proof (cases m)
  case (Ok x)
  with assms(1) have "m' = Ok x" by (simp add: le_res_def)
  with Ok assms(2)[of x] show ?thesis by simp
next
  case (Err e)
  with assms(1) have "m' = Err e" by (simp add: le_res_def)
  with Err show ?thesis by simp
next
  case OutOfFuel
  then show ?thesis by simp
qed

lemma w_fuel_step:
  "(\<forall>g a b. le_res (w_merge_f f g a b) (w_merge_f (Suc f) g a b)) \<and>
   (\<forall>g. le_res (w_rebuild_f f g) (w_rebuild_f (Suc f) g)) \<and>
   (\<forall>g ids. le_res (w_repair_all f g ids) (w_repair_all (Suc f) g ids)) \<and>
   (\<forall>g e. le_res (w_repair_f f g e) (w_repair_f (Suc f) g e)) \<and>
   (\<forall>g e a i d. le_res (w_repair_loop f g e a i d) (w_repair_loop (Suc f) g e a i d))"
proof (induction f)
  case 0
  show ?case by (simp add: w_merge_f.simps w_rebuild_f.simps w_repair_f.simps w_repair_loop.simps)
next
  case (Suc f)
  then have M: "\<And>g a b. le_res (w_merge_f f g a b) (w_merge_f (Suc f) g a b)"
    and RB: "\<And>g. le_res (w_rebuild_f f g) (w_rebuild_f (Suc f) g)"
    and RA: "\<And>g ids. le_res (w_repair_all f g ids) (w_repair_all (Suc f) g ids)"
    and R: "\<And>g e. le_res (w_repair_f f g e) (w_repair_f (Suc f) g e)"
    and L: "\<And>g e a i d. le_res (w_repair_loop f g e a i d) (w_repair_loop (Suc f) g e a i d)"
    by blast+
  have 1: "le_res (w_merge_f (Suc f) g a b) (w_merge_f (Suc (Suc f)) g a b)" for g a b
    apply (subst w_merge_f.simps(2)[of "Suc f"])
    apply (subst w_merge_f.simps(2)[of f])
    by (intro le_res_bnd le_res_refl)
       (auto simp: Let_def split: option.splits prod.splits intro!: le_res_bnd RB)
  have 2: "le_res (w_rebuild_f (Suc f) g) (w_rebuild_f (Suc (Suc f)) g)" for g
    apply (subst w_rebuild_f.simps(2)[of "Suc f"])
    apply (subst w_rebuild_f.simps(2)[of f])
    by (auto simp: Let_def split: option.splits prod.splits intro!: le_res_bnd RB RA)
  have 3: "le_res (w_repair_all (Suc f) g ids) (w_repair_all (Suc (Suc f)) g ids)" for g ids
    by (cases ids) (auto intro!: le_res_bnd RA R)
  have 4: "le_res (w_repair_f (Suc f) g e) (w_repair_f (Suc (Suc f)) g e)" for g e
    apply (subst w_repair_f.simps(2)[of "Suc f"])
    apply (subst w_repair_f.simps(2)[of f])
    by (auto simp: Let_def split: option.splits prod.splits intro!: le_res_bnd L)
  have 5: "le_res (w_repair_loop (Suc f) g e a i d) (w_repair_loop (Suc (Suc f)) g e a i d)"
    for g e a i d
    apply (subst w_repair_loop.simps(2)[of "Suc f"])
    apply (subst w_repair_loop.simps(2)[of f])
    by (auto simp: Let_def split: option.splits prod.splits intro!: le_res_bnd M L)
  from 1 2 3 4 5 show ?case by blast
qed

lemma le_res_trans: "le_res a b \<Longrightarrow> le_res b c \<Longrightarrow> le_res a c"
  by (auto simp: le_res_def)

lemma le_res_chain:
  assumes "\<And>n. le_res (X n) (X (Suc n))"
  shows "le_res (X n) (X (n + k))"
proof (induction k)
  case 0 show ?case by simp
next
  case (Suc k)
  from le_res_trans[OF Suc assms[of "n + k"]] show ?case by simp
qed

lemma le_res_mono:
  assumes "\<And>n. le_res (X n) (X (Suc n))" and "n \<le> m"
  shows "le_res (X n) (X m)"
  using le_res_chain[of X n "m - n", OF assms(1)] assms(2) by simp

lemma w_merge_f_mono: "n \<le> m \<Longrightarrow> le_res (w_merge_f n g a b) (w_merge_f m g a b)"
  by (rule le_res_mono[where X = "\<lambda>n. w_merge_f n g a b"]) (simp_all add: w_fuel_step)

lemma w_rebuild_f_mono: "n \<le> m \<Longrightarrow> le_res (w_rebuild_f n g) (w_rebuild_f m g)"
  by (rule le_res_mono[where X = "\<lambda>n. w_rebuild_f n g"]) (simp_all add: w_fuel_step)

lemma w_repair_all_mono: "n \<le> m \<Longrightarrow> le_res (w_repair_all n g ids) (w_repair_all m g ids)"
  by (rule le_res_mono[where X = "\<lambda>n. w_repair_all n g ids"]) (simp_all add: w_fuel_step)

lemma w_repair_f_mono: "n \<le> m \<Longrightarrow> le_res (w_repair_f n g e) (w_repair_f m g e)"
  by (rule le_res_mono[where X = "\<lambda>n. w_repair_f n g e"]) (simp_all add: w_fuel_step)

lemma w_repair_loop_mono:
  "n \<le> m \<Longrightarrow> le_res (w_repair_loop n g e a i d) (w_repair_loop m g e a i d)"
  by (rule le_res_mono[where X = "\<lambda>n. w_repair_loop n g e a i d"]) (simp_all add: w_fuel_step)

lemma le_res_eq: "le_res r r' \<Longrightarrow> r \<noteq> OutOfFuel \<Longrightarrow> r' = r"
  by (simp add: le_res_def)

lemma w_fine_not_OutOfFuel: "w_fine g r \<Longrightarrow> r \<noteq> OutOfFuel"
  by (auto simp: w_fine_def)

lemma w_fine_trans:
  assumes "nroots (w_unionFind g1) \<le> nroots (w_unionFind g)"
    and "length (w_classes g1) \<le> length (w_classes g)"
    and "w_worklist g = [] \<longrightarrow> w_worklist g1 = []"
    and "w_fine g1 r"
  shows "w_fine g r"
  using assms by (cases r) (auto simp: w_fine_def)

lemma w_repair_hashcons_cases:
  "uf_inv (w_unionFind g) \<Longrightarrow>
   (\<exists>err. w_repair_hashcons g es = Err err) \<or>
   (\<exists>g'. w_repair_hashcons g es = Ok g' \<and> uf_same (w_unionFind g) (w_unionFind g') \<and>
         w_classes g' = w_classes g \<and> w_arrays g' = w_arrays g \<and>
         w_worklist g' = w_worklist g \<and> w_next g' = w_next g)"
proof (induction es arbitrary: g)
  case Nil
  then show ?case by (simp add: uf_same_refl)
next
  case (Cons entry es)
  obtain pn pc where entry: "entry = (pn, pc)" by (cases entry)
  from canonicalize_cases[OF Cons.prems, of pn] consider
      (cerr) err where "canonicalize (w_unionFind g) pn = Err err"
    | (cok) uf1 nn where "canonicalize (w_unionFind g) pn = Ok (uf1, nn)"
        "uf_same (w_unionFind g) uf1"
    by blast
  then show ?case
  proof cases
    case cerr
    then show ?thesis using entry by simp
  next
    case cok
    from find_cases[OF uf_same_inv[OF cok(2)], of pc] consider
        (ferr) err where "find uf1 pc = Err err"
      | (fok) uf2 ne where "find uf1 pc = Ok (uf2, ne)" "uf_same uf1 uf2"
      by blast
    then show ?thesis
    proof cases
      case ferr
      then show ?thesis using entry cok(1) by simp
    next
      case fok
      define g1 where "g1 = g\<lparr>w_unionFind := uf2,
             w_hashcons := AList.update nn (Some ne) (map_delete pn (w_hashcons g))\<rparr>"
      have s: "uf_same (w_unionFind g) (w_unionFind g1)"
        using uf_same_trans[OF cok(2) fok(2)] by (simp add: g1_def)
      have unfold: "w_repair_hashcons g (entry # es) = w_repair_hashcons g1 es"
        using entry cok(1) fok(1) by (simp add: g1_def)
      from Cons.IH[OF uf_same_inv[OF s]] show ?thesis
      proof
        assume "\<exists>err. w_repair_hashcons g1 es = Err err"
        with unfold show ?thesis by simp
      next
        assume "\<exists>g'. w_repair_hashcons g1 es = Ok g' \<and> uf_same (w_unionFind g1) (w_unionFind g') \<and>
         w_classes g' = w_classes g1 \<and> w_arrays g' = w_arrays g1 \<and>
         w_worklist g' = w_worklist g1 \<and> w_next g' = w_next g1"
        then obtain g' where g': "w_repair_hashcons g1 es = Ok g'"
          "uf_same (w_unionFind g1) (w_unionFind g')"
          "w_classes g' = w_classes g1" "w_arrays g' = w_arrays g1"
          "w_worklist g' = w_worklist g1" "w_next g' = w_next g1" by blast
        from uf_same_trans[OF s g'(2)] g' unfold show ?thesis by (simp add: g1_def)
      qed
    qed
  qed
qed

text \<open>The second loop of \<^verbatim>\<open>repair\<close> ends when \<^verbatim>\<open>merge\<close> does.\<close>

lemma w_repair_loop_ends:
  assumes M: "\<And>g a b. uf_inv (w_unionFind g) \<Longrightarrow> nroots (w_unionFind g) \<le> N \<Longrightarrow>
                \<exists>n. w_merge_fine g (w_merge_f n g a b)"
    and L: "\<And>g e a i d. uf_inv (w_unionFind g) \<Longrightarrow> nroots (w_unionFind g) < N \<Longrightarrow>
                \<exists>n. w_fine g (w_repair_loop n g e a i d)"
  shows "uf_inv (w_unionFind g) \<Longrightarrow> nroots (w_unionFind g) \<le> N \<Longrightarrow>
         \<exists>n. w_fine g (w_repair_loop n g e a i d)"
proof (induction "length (w_arrays g a) - i" arbitrary: g i d rule: less_induct)
  case less
  note inv = less.prems(1) and nr = less.prems(2)
  show ?case
  proof (cases "i < length (w_arrays g a)")
    case False
    have "w_fine g (w_repair_loop (Suc 0) g e a i d)"
    proof (cases "map_of (w_classes g) e")
      case None
      with False inv show ?thesis by (simp add: w_repair_loop.simps w_fine_def)
    next
      case (Some c)
      from update_present_length[OF map_of_key[OF Some]] False inv Some
      show ?thesis by (simp add: w_repair_loop.simps w_fine_def)
    qed
    then show ?thesis ..
  next
    case True
    obtain pn pc where entry: "w_arrays g a ! i = (pn, pc)" by (cases "w_arrays g a ! i")
    from canonicalize_cases[OF inv, of pn] consider
        (cerr) err where "canonicalize (w_unionFind g) pn = Err err"
      | (cok) uf1 nn where "canonicalize (w_unionFind g) pn = Ok (uf1, nn)"
          "uf_same (w_unionFind g) uf1"
      by blast
    then show ?thesis
    proof cases
      case cerr
      with True entry have "w_fine g (w_repair_loop (Suc 0) g e a i d)"
        by (simp add: w_repair_loop.simps w_fine_def)
      then show ?thesis ..
    next
      case cok
      from find_cases[OF uf_same_inv[OF cok(2)], of pc] consider
          (ferr) err where "find uf1 pc = Err err"
        | (fok) uf2 ne where "find uf1 pc = Ok (uf2, ne)" "uf_same uf1 uf2"
        by blast
      then show ?thesis
      proof cases
        case ferr
        with True entry cok(1) have "w_fine g (w_repair_loop (Suc 0) g e a i d)"
          by (simp add: w_repair_loop.simps w_fine_def)
        then show ?thesis ..
      next
        case fok
        define g1 where "g1 = g\<lparr>w_unionFind := uf2\<rparr>"
        define d' where "d' = AList.update nn ne d"
        define inner where "inner = (\<lambda>n. case map_of d nn of
                        None \<Rightarrow> Ok g1
                      | Some e2 \<Rightarrow>
                          if e2 \<noteq> 0
                          then bnd (w_merge_f n g1 pc e2) (\<lambda>(g2, _). Ok g2)
                          else Ok g1)"
        have s: "uf_same (w_unionFind g) (w_unionFind g1)"
          using uf_same_trans[OF cok(2) fok(2)] by (simp add: g1_def)
        have inv1: "uf_inv (w_unionFind g1)" by (rule uf_same_inv[OF s])
        have nr1: "nroots (w_unionFind g1) = nroots (w_unionFind g)"
          by (rule uf_same_nroots[OF inv s])
        have unfold: "w_repair_loop (Suc n) g e a i d
            = bnd (inner n) (\<lambda>g2. w_repair_loop n g2 e a (Suc i) d')" for n
          unfolding inner_def g1_def d'_def using True entry cok(1) fok(1)
          by (simp add: w_repair_loop.simps Let_def)
        have "\<exists>n1. w_step_fine g1 (inner n1) \<and> (\<forall>m\<ge>n1. inner m = inner n1)"
        proof (cases "map_of d nn")
          case None
          then have "inner m = Ok g1" for m by (simp add: inner_def)
          with inv1 show ?thesis by (simp add: w_step_fine_def)
        next
          case (Some e2)
          show ?thesis
          proof (cases "e2 = 0")
            case True
            with Some have "inner m = Ok g1" for m by (simp add: inner_def)
            with inv1 show ?thesis by (simp add: w_step_fine_def)
          next
            case False
            with Some have i: "inner m = bnd (w_merge_f m g1 pc e2) (\<lambda>(g2, _). Ok g2)" for m
              by (simp add: inner_def)
            from M[OF inv1, of pc e2] nr nr1 obtain n1 where
              mf: "w_merge_fine g1 (w_merge_f n1 g1 pc e2)" by auto
            then have ne: "w_merge_f n1 g1 pc e2 \<noteq> OutOfFuel" by (auto simp: w_merge_fine_def)
            have st: "\<forall>m\<ge>n1. inner m = inner n1"
            proof (intro allI impI)
              fix m assume "n1 \<le> m"
              from le_res_eq[OF w_merge_f_mono[OF this] ne]
              show "inner m = inner n1" by (simp only: i)
            qed
            have "w_step_fine g1 (inner n1)"
            proof (cases "w_merge_f n1 g1 pc e2")
              case (Ok p)
              obtain g2 b where p: "p = (g2, b)" by (cases p)
              with mf Ok show ?thesis
                by (cases b) (auto simp: i w_merge_fine_def w_step_fine_def)
            next
              case (Err err)
              then show ?thesis by (simp add: i w_step_fine_def)
            next
              case OutOfFuel
              with ne show ?thesis by simp
            qed
            with st show ?thesis by blast
          qed
        qed
        then obtain n1 where sf: "w_step_fine g1 (inner n1)"
          and st: "\<And>m. n1 \<le> m \<Longrightarrow> inner m = inner n1" by blast
        show ?thesis
        proof (cases "inner n1")
          case OutOfFuel
          with sf show ?thesis by (simp add: w_step_fine_def)
        next
          case (Err err)
          then have "w_repair_loop (Suc n1) g e a i d = Err err" by (simp add: unfold)
          then have "w_fine g (w_repair_loop (Suc n1) g e a i d)" by (simp add: w_fine_def)
          then show ?thesis ..
        next
          case (Ok g2)
          with sf have inv2: "uf_inv (w_unionFind g2)"
            and len2: "length (w_classes g2) \<le> length (w_classes g1)"
            and wl2: "w_worklist g1 = [] \<longrightarrow> w_worklist g2 = []"
            and dec: "nroots (w_unionFind g2) < nroots (w_unionFind g1) \<or>
                  nroots (w_unionFind g2) = nroots (w_unionFind g1) \<and> w_arrays g2 = w_arrays g1"
            by (simp_all add: w_step_fine_def)
          have "\<exists>n2. w_fine g2 (w_repair_loop n2 g2 e a (Suc i) d')"
          proof (cases "nroots (w_unionFind g2) < nroots (w_unionFind g1)")
            case True
            with nr nr1 have "nroots (w_unionFind g2) < N" by simp
            from L[OF inv2 this] show ?thesis .
          next
            case False
            with dec have eq: "nroots (w_unionFind g2) = nroots (w_unionFind g1)"
              and arr: "w_arrays g2 = w_arrays g1" by auto
            have arr': "w_arrays g2 = w_arrays g" using arr by (simp add: g1_def)
            have m: "length (w_arrays g2 a) - Suc i < length (w_arrays g a) - i"
              using \<open>i < length (w_arrays g a)\<close> arr' by simp
            have "nroots (w_unionFind g2) \<le> N" using eq nr1 nr by simp
            from less.hyps[OF m inv2 this] show ?thesis .
          qed
          then obtain n2 where f2: "w_fine g2 (w_repair_loop n2 g2 e a (Suc i) d')" ..
          define n where "n = max n1 n2"
          have "inner n = Ok g2" using st[of n] Ok by (simp add: n_def)
          moreover have "w_repair_loop n g2 e a (Suc i) d' = w_repair_loop n2 g2 e a (Suc i) d'"
            by (rule le_res_eq[OF w_repair_loop_mono w_fine_not_OutOfFuel[OF f2]])
               (simp add: n_def)
          ultimately have "w_repair_loop (Suc n) g e a i d = w_repair_loop n2 g2 e a (Suc i) d'"
            by (simp add: unfold)
          moreover have "w_fine g (w_repair_loop n2 g2 e a (Suc i) d')"
          proof (rule w_fine_trans[OF _ _ _ f2])
            show "nroots (w_unionFind g2) \<le> nroots (w_unionFind g)" using dec nr1 by auto
            show "length (w_classes g2) \<le> length (w_classes g)" using len2 by (simp add: g1_def)
            show "w_worklist g = [] \<longrightarrow> w_worklist g2 = []" using wl2 by (simp add: g1_def)
          qed
          ultimately have "w_fine g (w_repair_loop (Suc n) g e a i d)" by simp
          then show ?thesis ..
        qed
      qed
    qed
  qed
qed

lemma w_repair_f_ends:
  assumes L: "\<And>g e a i d. uf_inv (w_unionFind g) \<Longrightarrow> nroots (w_unionFind g) \<le> N \<Longrightarrow>
                \<exists>n. w_fine g (w_repair_loop n g e a i d)"
    and inv: "uf_inv (w_unionFind g)" and nr: "nroots (w_unionFind g) \<le> N"
  shows "\<exists>n. w_fine g (w_repair_f n g eid)"
proof (cases "map_of (w_classes g) eid")
  case None
  then have "w_fine g (w_repair_f (Suc 0) g eid)" by (simp add: w_repair_f.simps w_fine_def)
  then show ?thesis ..
next
  case (Some c)
  from w_repair_hashcons_cases[OF inv, of "w_arrays g (w_parents c)"] show ?thesis
  proof
    assume "\<exists>err. w_repair_hashcons g (w_arrays g (w_parents c)) = Err err"
    with Some have "w_fine g (w_repair_f (Suc 0) g eid)"
      by (auto simp: w_repair_f.simps w_fine_def)
    then show ?thesis ..
  next
    assume "\<exists>g'. w_repair_hashcons g (w_arrays g (w_parents c)) = Ok g' \<and>
         uf_same (w_unionFind g) (w_unionFind g') \<and>
         w_classes g' = w_classes g \<and> w_arrays g' = w_arrays g \<and>
         w_worklist g' = w_worklist g \<and> w_next g' = w_next g"
    then obtain g1 where h: "w_repair_hashcons g (w_arrays g (w_parents c)) = Ok g1"
      and s: "uf_same (w_unionFind g) (w_unionFind g1)"
      and same: "w_classes g1 = w_classes g" "w_worklist g1 = w_worklist g" by blast
    have inv1: "uf_inv (w_unionFind g1)" by (rule uf_same_inv[OF s])
    have nr1: "nroots (w_unionFind g1) = nroots (w_unionFind g)" by (rule uf_same_nroots[OF inv s])
    from L[OF inv1, of eid "w_parents c" 0 "[]"] nr nr1 obtain n where
      f: "w_fine g1 (w_repair_loop n g1 eid (w_parents c) 0 [])" by auto
    have "w_repair_f (Suc n) g eid = w_repair_loop n g1 eid (w_parents c) 0 []"
      using Some h by (simp add: w_repair_f.simps)
    moreover have "w_fine g (w_repair_loop n g1 eid (w_parents c) 0 [])"
      by (rule w_fine_trans[OF _ _ _ f]) (simp_all add: nr1 same)
    ultimately have "w_fine g (w_repair_f (Suc n) g eid)" by simp
    then show ?thesis ..
  qed
qed

lemma w_repair_all_ends:
  assumes R: "\<And>g e. uf_inv (w_unionFind g) \<Longrightarrow> nroots (w_unionFind g) \<le> N \<Longrightarrow>
                \<exists>n. w_fine g (w_repair_f n g e)"
  shows "uf_inv (w_unionFind g) \<Longrightarrow> nroots (w_unionFind g) \<le> N \<Longrightarrow>
         \<exists>n. w_fine g (w_repair_all n g ids)"
proof (induction ids arbitrary: g)
  case Nil
  then have "w_fine g (w_repair_all (Suc 0) g [])" by (simp add: w_fine_def)
  then show ?case ..
next
  case (Cons eid ids)
  from R[OF Cons.prems, of eid] obtain n1 where f1: "w_fine g (w_repair_f n1 g eid)" ..
  show ?case
  proof (cases "w_repair_f n1 g eid")
    case OutOfFuel
    with f1 show ?thesis by (simp add: w_fine_def)
  next
    case (Err err)
    then have "w_fine g (w_repair_all (Suc n1) g (eid # ids))" by (simp add: w_fine_def)
    then show ?thesis ..
  next
    case (Ok g1)
    with f1 have inv1: "uf_inv (w_unionFind g1)"
      and nr1: "nroots (w_unionFind g1) \<le> nroots (w_unionFind g)"
      and len1: "length (w_classes g1) \<le> length (w_classes g)"
      and wl1: "w_worklist g = [] \<longrightarrow> w_worklist g1 = []"
      by (simp_all add: w_fine_def)
    from nr1 Cons.prems(2) have "nroots (w_unionFind g1) \<le> N" by simp
    from Cons.IH[OF inv1 this] obtain n2 where f2: "w_fine g1 (w_repair_all n2 g1 ids)" ..
    define n where "n = max n1 n2"
    have "w_repair_f n g eid = Ok g1"
      using le_res_eq[OF w_repair_f_mono, of n1 n g eid] Ok by (simp add: n_def)
    moreover have "w_repair_all n g1 ids = w_repair_all n2 g1 ids"
      by (rule le_res_eq[OF w_repair_all_mono w_fine_not_OutOfFuel[OF f2]]) (simp add: n_def)
    ultimately have "w_repair_all (Suc n) g (eid # ids) = w_repair_all n2 g1 ids" by simp
    moreover have "w_fine g (w_repair_all n2 g1 ids)"
      by (rule w_fine_trans[OF nr1 len1 wl1 f2])
    ultimately have "w_fine g (w_repair_all (Suc n) g (eid # ids))" by simp
    then show ?thesis ..
  qed
qed

lemma w_rebuild_f_ends:
  assumes RA: "\<And>g ids. uf_inv (w_unionFind g) \<Longrightarrow> nroots (w_unionFind g) \<le> N \<Longrightarrow>
                \<exists>n. w_fine g (w_repair_all n g ids)"
    and inv: "uf_inv (w_unionFind g)" and nr: "nroots (w_unionFind g) \<le> N"
  shows "\<exists>n. w_rebuild_fine g (w_rebuild_f n g)"
proof (cases "w_worklist g = []")
  case True
  with inv have "w_rebuild_fine g (w_rebuild_f (Suc 0) g)"
    by (simp add: w_rebuild_f.simps w_rebuild_fine_def)
  then show ?thesis ..
next
  case False
  from find_all_cases[OF inv, of "w_worklist g"] consider
      (err) err where "find_all (w_unionFind g) (w_worklist g) = Err err"
    | (ok) uf1 ids where "find_all (w_unionFind g) (w_worklist g) = Ok (uf1, ids)"
        "uf_same (w_unionFind g) uf1"
    by blast
  then show ?thesis
  proof cases
    case err
    with False have "w_rebuild_fine g (w_rebuild_f (Suc 0) g)"
      by (simp add: w_rebuild_f.simps w_rebuild_fine_def)
    then show ?thesis ..
  next
    case ok
    define g1 where "g1 = g\<lparr>w_unionFind := uf1, w_worklist := []\<rparr>"
    define todo where "todo = set_union [] ids"
    have unfold: "w_rebuild_f (Suc n) g = bnd (w_repair_all n g1 todo) (\<lambda>g2. w_rebuild_f n g2)" for n
      using False ok(1) by (simp add: w_rebuild_f.simps g1_def todo_def)
    have inv1: "uf_inv (w_unionFind g1)" using uf_same_inv[OF ok(2)] by (simp add: g1_def)
    have nr1: "nroots (w_unionFind g1) = nroots (w_unionFind g)"
      using uf_same_nroots[OF inv ok(2)] by (simp add: g1_def)
    from RA[OF inv1, of todo] nr nr1 obtain n1 where f1: "w_fine g1 (w_repair_all n1 g1 todo)"
      by auto
    show ?thesis
    proof (cases "w_repair_all n1 g1 todo")
      case OutOfFuel
      with f1 show ?thesis by (simp add: w_fine_def)
    next
      case (Err e)
      then have "w_rebuild_fine g (w_rebuild_f (Suc n1) g)"
        by (simp add: unfold w_rebuild_fine_def)
      then show ?thesis ..
    next
      case (Ok g2)
      with f1 have inv2: "uf_inv (w_unionFind g2)"
        and nr2: "nroots (w_unionFind g2) \<le> nroots (w_unionFind g1)"
        and len2: "length (w_classes g2) \<le> length (w_classes g1)"
        and wl2: "w_worklist g2 = []"
        by (simp_all add: w_fine_def g1_def)
      define n where "n = Suc n1"
      have "w_repair_all n g1 todo = Ok g2"
        using le_res_eq[OF w_repair_all_mono, of n1 n g1 todo] Ok by (simp add: n_def)
      moreover have "w_rebuild_f n g2 = Ok g2"
        using wl2 by (simp add: n_def w_rebuild_f.simps)
      ultimately have "w_rebuild_f (Suc n) g = Ok g2" by (simp add: unfold)
      moreover have "w_rebuild_fine g (Ok g2)"
        using inv2 nr2 nr1 len2 wl2 by (simp add: w_rebuild_fine_def g1_def)
      ultimately have "w_rebuild_fine g (w_rebuild_f (Suc n) g)" by simp
      then show ?thesis ..
    qed
  qed
qed

lemma w_merge_f_ends:
  assumes RB: "\<And>g. uf_inv (w_unionFind g) \<Longrightarrow> nroots (w_unionFind g) < N \<Longrightarrow>
                \<exists>n. w_rebuild_fine g (w_rebuild_f n g)"
    and inv: "uf_inv (w_unionFind g)" and nr: "nroots (w_unionFind g) \<le> N"
  shows "\<exists>n. w_merge_fine g (w_merge_f n g a b)"
proof -
  note ms = w_merge_f.simps(2)[of _ g a b]
  from union_cases[OF inv, of a b] consider
      (err) err where "union (w_unionFind g) a b = Err err"
    | (none) uf1 where "union (w_unionFind g) a b = Ok (uf1, None)" "uf_same (w_unionFind g) uf1"
    | (some) uf1 newRootId oldRootId where
        "union (w_unionFind g) a b = Ok (uf1, Some (newRootId, oldRootId))" "uf_inv uf1"
        "length (parent uf1) = length (parent (w_unionFind g))"
        "Suc (nroots uf1) = nroots (w_unionFind g)"
    by blast
  then show ?thesis
  proof cases
    case err
    then have "w_merge_fine g (w_merge_f (Suc 0) g a b)" by (simp add: ms w_merge_fine_def)
    then show ?thesis ..
  next
    case none
    from none(1) have "w_merge_f (Suc 0) g a b = Ok (g\<lparr>w_unionFind := uf1\<rparr>, False)"
      by (simp add: ms)
    with uf_same_inv[OF none(2)] uf_same_nroots[OF inv none(2)]
    have "w_merge_fine g (w_merge_f (Suc 0) g a b)" by (simp add: w_merge_fine_def)
    then show ?thesis ..
  next
    case some
    note U = some(1) and inv1 = some(2) and nr1 = some(4)
    have ne: "newRootId \<noteq> oldRootId" by (rule union_distinct[OF U])
    show ?thesis
    proof (cases "map_of (w_classes g) oldRootId")
      case None
      with U have "w_merge_fine g (w_merge_f (Suc 0) g a b)"
        by (simp add: ms w_merge_fine_def Let_def)
      then show ?thesis ..
    next
      case old: (Some old)
      define eid where "eid = (case map_of (w_hashcons g) (w_originalNode old) of
                               None \<Rightarrow> None | Some v \<Rightarrow> v)"
      from canonicalize_cases[OF inv1, of "w_originalNode old"] consider
          (cerr) err where "canonicalize uf1 (w_originalNode old) = Err err"
        | (cok) uf2 cn where "canonicalize uf1 (w_originalNode old) = Ok (uf2, cn)" "uf_same uf1 uf2"
        by blast
      then show ?thesis
      proof cases
        case cerr
        with U old have "w_merge_fine g (w_merge_f (Suc 0) g a b)"
          by (simp add: ms w_merge_fine_def Let_def)
        then show ?thesis ..
      next
        case cok
        note can = cok(1) and s2 = cok(2)
        from find_opt_cases[OF uf_same_inv[OF s2], of eid] consider
            (ferr) err where "find_opt uf2 eid = Err err"
          | (fok) uf3 eid' where "find_opt uf2 eid = Ok (uf3, eid')" "uf_same uf2 uf3"
          by blast
        then show ?thesis
        proof cases
          case ferr
          with U old can have "w_merge_fine g (w_merge_f (Suc 0) g a b)"
            by (simp add: ms w_merge_fine_def Let_def eid_def)
          then show ?thesis ..
        next
          case fok
          note fo = fok(1) and s3 = fok(2)
          have s13: "uf_same uf1 uf3" by (rule uf_same_trans[OF s2 s3])
          have inv3: "uf_inv uf3" by (rule uf_same_inv[OF s3])
          have nr3: "Suc (nroots uf3) = nroots (w_unionFind g)"
            using uf_same_nroots[OF inv1 s13] nr1 by simp
          show ?thesis
          proof (cases "map_of (w_classes g) newRootId")
            case None
            with U old can fo have "w_merge_fine g (w_merge_f (Suc 0) g a b)"
              by (simp add: ms w_merge_fine_def Let_def eid_def)
            then show ?thesis ..
          next
            case new: (Some new)
            define new' where "new' = new\<lparr>w_nodes := set_union (w_nodes new) (w_nodes old)\<rparr>"
            define g1 where "g1 = g\<lparr>w_unionFind := uf3,
                  w_classes := AList.update newRootId new' (map_delete oldRootId (w_classes g)),
                  w_hashcons := AList.update cn eid' (map_delete (w_originalNode old) (w_hashcons g)),
                  w_worklist := w_worklist g @ [newRootId],
                  w_arrays := (w_arrays g)(w_parents new :=
                                 w_arrays g (w_parents new) @ w_arrays g (w_parents old))\<rparr>"
            have unfold: "w_merge_f (Suc n) g a b
                = bnd (w_rebuild_f n g1) (\<lambda>g2. Ok (g2, True))" for n
              unfolding g1_def new'_def using U old can fo new
              by (simp add: ms Let_def eid_def)
            have inv_g1: "uf_inv (w_unionFind g1)" using inv3 by (simp add: g1_def)
            have nr_g1: "nroots (w_unionFind g1) < N" using nr nr3 by (simp add: g1_def)
            have "newRootId \<in> fst ` set (map_delete oldRootId (w_classes g))"
              by (rule map_delete_keeps[OF map_of_key[OF new] ne])
            then have "length (w_classes g1) = length (map_delete oldRootId (w_classes g))"
              by (simp add: g1_def update_present_length)
            with map_delete_length[OF map_of_key[OF old]]
            have len_g1: "Suc (length (w_classes g1)) = length (w_classes g)" by simp
            from RB[OF inv_g1 nr_g1] obtain n where rf: "w_rebuild_fine g1 (w_rebuild_f n g1)" ..
            have "w_merge_fine g (w_merge_f (Suc n) g a b)"
            proof (cases "w_rebuild_f n g1")
              case (Ok g2)
              with rf have "uf_inv (w_unionFind g2)"
                "nroots (w_unionFind g2) \<le> nroots (w_unionFind g1)"
                "length (w_classes g2) \<le> length (w_classes g1)" "w_worklist g2 = []"
                by (simp_all add: w_rebuild_fine_def)
              moreover have "nroots (w_unionFind g1) < nroots (w_unionFind g)"
                using nr3 by (simp add: g1_def)
              ultimately show ?thesis using unfold Ok len_g1 by (simp add: w_merge_fine_def)
            next
              case (Err e)
              with unfold show ?thesis by (simp add: w_merge_fine_def)
            next
              case OutOfFuel
              with rf show ?thesis by (simp add: w_rebuild_fine_def)
            qed
            then show ?thesis ..
          qed
        qed
      qed
    qed
  qed
qed

lemma w_all_end:
  "\<forall>g. uf_inv (w_unionFind g) \<and> nroots (w_unionFind g) \<le> N \<longrightarrow>
     (\<forall>a b. \<exists>n. w_merge_fine g (w_merge_f n g a b)) \<and>
     (\<forall>e a i d. \<exists>n. w_fine g (w_repair_loop n g e a i d)) \<and>
     (\<exists>n. w_rebuild_fine g (w_rebuild_f n g))"
proof (induction N rule: less_induct)
  case (less N)
  have RB_lt: "\<exists>n. w_rebuild_fine g (w_rebuild_f n g)"
    if "uf_inv (w_unionFind g)" "nroots (w_unionFind g) < N" for g
    using less.IH[OF that(2)] that(1) by blast
  have L_lt: "\<exists>n. w_fine g (w_repair_loop n g e a i d)"
    if "uf_inv (w_unionFind g)" "nroots (w_unionFind g) < N" for g e a i d
    using less.IH[OF that(2)] that(1) by blast
  have M: "\<exists>n. w_merge_fine g (w_merge_f n g a b)"
    if "uf_inv (w_unionFind g)" "nroots (w_unionFind g) \<le> N" for g a b
    by (rule w_merge_f_ends[OF RB_lt that])
  have L: "\<exists>n. w_fine g (w_repair_loop n g e a i d)"
    if "uf_inv (w_unionFind g)" "nroots (w_unionFind g) \<le> N" for g e a i d
    by (rule w_repair_loop_ends[OF M L_lt that])
  have R: "\<exists>n. w_fine g (w_repair_f n g e)"
    if "uf_inv (w_unionFind g)" "nroots (w_unionFind g) \<le> N" for g e
    by (rule w_repair_f_ends[OF L that])
  have RA: "\<exists>n. w_fine g (w_repair_all n g ids)"
    if "uf_inv (w_unionFind g)" "nroots (w_unionFind g) \<le> N" for g ids
    by (rule w_repair_all_ends[OF R that])
  have RB: "\<exists>n. w_rebuild_fine g (w_rebuild_f n g)"
    if "uf_inv (w_unionFind g)" "nroots (w_unionFind g) \<le> N" for g
    by (rule w_rebuild_f_ends[OF RA that])
  from M L RB show ?case by blast
qed

lemma w_merge_f_fine:
  assumes "uf_inv (w_unionFind g)"
  shows "\<exists>n. w_merge_fine g (w_merge_f n g a b)"
  using w_all_end[of "nroots (w_unionFind g)"] assms by blast

lemma cascade_graph_uf:
  "unionFind cascade_graph = \<lparr>parent = [0, 1, 2, 3, 4, 5], rank = [0, 0, 0, 0, 0, 0]\<rparr>"
  by code_simp

lemma w_cascade_graph_uf:
  "w_unionFind w_cascade_graph = \<lparr>parent = [0, 1, 2, 3, 4, 5], rank = [0, 0, 0, 0, 0, 0]\<rparr>"
  by code_simp

lemma cascade_uf_inv: "uf_inv \<lparr>parent = [0, 1, 2, 3, 4, 5], rank = [0, 0, 0, 0, 0, 0]\<rparr>"
proof (rule uf_invI)
  show "length (rank \<lparr>parent = [0, 1, 2, 3, 4, 5], rank = [0, 0, 0, 0, 0, 0]\<rparr>)
      = length (parent \<lparr>parent = [0, 1, 2, 3, 4, 5], rank = [0, 0, 0, 0, 0, 0]\<rparr>)"
    by simp
  show "acyclic_p (parent \<lparr>parent = [0, 1, 2, 3, 4, 5], rank = [0, 0, 0, 0, 0, 0]\<rparr>) (\<lambda>i. 0)"
    by (simp add: acyclic_p_def less_Suc_eq numeral_eq_Suc)
qed

text \<open>
  Claim C7: the cascade of \<^verbatim>\<open>merge\<close> and \<^verbatim>\<open>repair\<close> ends on every e-graph with
  a well-formed union-find, in both variants of the e-graph. With \<^verbatim>\<open>repair\<close> called
  from \<^verbatim>\<open>merge\<close>, the bound on the nesting, the number of keys, is never used up; a
  \<^verbatim>\<open>merge\<close> that returns \<^verbatim>\<open>true\<close> leaves fewer classes than it found, and the
  union-find stays well formed. With the worklist, every call of \<^verbatim>\<open>merge\<close> and of
  \<^verbatim>\<open>rebuild\<close> has a bound from which on the run ends with the same result; a
  \<^verbatim>\<open>merge\<close> that returns \<^verbatim>\<open>true\<close> leaves fewer classes than it found, a
  \<^verbatim>\<open>rebuild\<close> that returns leaves no more classes, both leave the worklist empty,
  and the union-find stays well formed. In both variants every nested \<^verbatim>\<open>merge\<close> that
  goes on to \<^verbatim>\<open>repair\<close> has removed a root of the union-find.
\<close>

theorem merge_terminates:
  "(uf_inv (unionFind g) \<longrightarrow>
      merge g a b \<noteq> OutOfFuel \<and>
      (\<forall>g'. merge g a b = Ok (g', True) \<longrightarrow> classCount g' < classCount g) \<and>
      (\<forall>g' r. merge g a b = Ok (g', r) \<longrightarrow> uf_inv (unionFind g'))) \<and>
   (uf_inv (w_unionFind wg) \<longrightarrow>
      (\<exists>n r. r \<noteq> OutOfFuel \<and> (\<forall>m\<ge>n. w_merge_f m wg wa wb = r) \<and>
         (\<forall>g'. r = Ok (g', True) \<longrightarrow> w_classCount g' < w_classCount wg \<and> w_worklist g' = []) \<and>
         (\<forall>g' t. r = Ok (g', t) \<longrightarrow> uf_inv (w_unionFind g'))) \<and>
      (\<exists>n r. r \<noteq> OutOfFuel \<and> (\<forall>m\<ge>n. w_rebuild_f m wg = r) \<and>
         (\<forall>g'. r = Ok g' \<longrightarrow> w_classCount g' \<le> w_classCount wg \<and> w_worklist g' = [] \<and>
                uf_inv (w_unionFind g'))))"
proof (intro conjI impI)
  assume inv: "uf_inv (unionFind g)"
  have "merge_fine g (merge g a b)"
    unfolding merge_def by (rule merge_f_fine[OF inv nroots_le_length])
  then show "merge g a b \<noteq> OutOfFuel"
    "\<forall>g'. merge g a b = Ok (g', True) \<longrightarrow> classCount g' < classCount g"
    "\<forall>g' r. merge g a b = Ok (g', r) \<longrightarrow> uf_inv (unionFind g')"
    by (cases "merge g a b"; auto simp: merge_fine_def classCount_def)+
next
  assume inv: "uf_inv (w_unionFind wg)"
  from w_merge_f_fine[OF inv, of wa wb] obtain n where
    f: "w_merge_fine wg (w_merge_f n wg wa wb)" ..
  then have ne: "w_merge_f n wg wa wb \<noteq> OutOfFuel" by (auto simp: w_merge_fine_def)
  have st: "\<forall>m\<ge>n. w_merge_f m wg wa wb = w_merge_f n wg wa wb"
  proof (intro allI impI)
    fix m assume "n \<le> m"
    from le_res_eq[OF w_merge_f_mono[OF this] ne]
    show "w_merge_f m wg wa wb = w_merge_f n wg wa wb" .
  qed
  have t: "\<forall>g'. w_merge_f n wg wa wb = Ok (g', True) \<longrightarrow>
             w_classCount g' < w_classCount wg \<and> w_worklist g' = []"
    using f by (auto simp: w_merge_fine_def w_classCount_def)
  have u: "\<forall>g' t. w_merge_f n wg wa wb = Ok (g', t) \<longrightarrow> uf_inv (w_unionFind g')"
    using f by (auto simp: w_merge_fine_def)
  from ne st t u
  show "\<exists>n r. r \<noteq> OutOfFuel \<and> (\<forall>m\<ge>n. w_merge_f m wg wa wb = r) \<and>
         (\<forall>g'. r = Ok (g', True) \<longrightarrow> w_classCount g' < w_classCount wg \<and> w_worklist g' = []) \<and>
         (\<forall>g' t. r = Ok (g', t) \<longrightarrow> uf_inv (w_unionFind g'))"
    by blast
next
  assume inv: "uf_inv (w_unionFind wg)"
  from w_all_end[of "nroots (w_unionFind wg)"] inv obtain n where
    f: "w_rebuild_fine wg (w_rebuild_f n wg)" by blast
  then have ne: "w_rebuild_f n wg \<noteq> OutOfFuel" by (auto simp: w_rebuild_fine_def)
  have st: "\<forall>m\<ge>n. w_rebuild_f m wg = w_rebuild_f n wg"
  proof (intro allI impI)
    fix m assume "n \<le> m"
    from le_res_eq[OF w_rebuild_f_mono[OF this] ne]
    show "w_rebuild_f m wg = w_rebuild_f n wg" .
  qed
  have t: "\<forall>g'. w_rebuild_f n wg = Ok g' \<longrightarrow>
             w_classCount g' \<le> w_classCount wg \<and> w_worklist g' = [] \<and> uf_inv (w_unionFind g')"
    using f by (auto simp: w_rebuild_fine_def w_classCount_def)
  from ne st t
  show "\<exists>n r. r \<noteq> OutOfFuel \<and> (\<forall>m\<ge>n. w_rebuild_f m wg = r) \<and>
         (\<forall>g'. r = Ok g' \<longrightarrow> w_classCount g' \<le> w_classCount wg \<and> w_worklist g' = [] \<and>
                uf_inv (w_unionFind g'))"
    by blast
qed

theorem merge_terminates_witness:
  "uf_inv (unionFind cascade_graph) \<and> uf_inv (w_unionFind w_cascade_graph) \<and>
   classCount cascade_graph = 6 \<and> w_classCount w_cascade_graph = 6 \<and>
   (\<exists>g'. merge cascade_graph 0 3 = Ok (g', True) \<and> classCount g' = 3 \<and>
         uf_inv (unionFind g')) \<and>
   (\<exists>n g'. w_merge_f n w_cascade_graph 0 3 = Ok (g', True) \<and> w_classCount g' = 3 \<and>
         w_worklist g' = [] \<and> uf_inv (w_unionFind g'))"
proof -
  have i1: "uf_inv (unionFind cascade_graph)"
    unfolding cascade_graph_uf by (rule cascade_uf_inv)
  have i2: "uf_inv (w_unionFind w_cascade_graph)"
    unfolding w_cascade_graph_uf by (rule cascade_uf_inv)
  have c1: "classCount cascade_graph = 6" by code_simp
  have c2: "w_classCount w_cascade_graph = 6" by code_simp
  have e1: "(case merge cascade_graph 0 3 of Ok (g', b) \<Rightarrow> b \<and> classCount g' = 3 | _ \<Rightarrow> False)"
    by code_simp
  have e2: "(case w_merge_f 40 w_cascade_graph 0 3 of
               Ok (g', b) \<Rightarrow> b \<and> w_classCount g' = 3 | _ \<Rightarrow> False)"
    by code_simp
  note T = merge_terminates[of cascade_graph 0 3 w_cascade_graph 0 3]
  from e1 obtain g1 where m1: "merge cascade_graph 0 3 = Ok (g1, True)" "classCount g1 = 3"
    by (cases "merge cascade_graph 0 3") (auto split: prod.splits)
  from T i1 m1(1) have u1: "uf_inv (unionFind g1)" by blast
  from e2 obtain g2 where m2: "w_merge_f 40 w_cascade_graph 0 3 = Ok (g2, True)"
    "w_classCount g2 = 3"
    by (cases "w_merge_f 40 w_cascade_graph 0 3") (auto split: prod.splits)
  from T i2 obtain n r where r: "r \<noteq> OutOfFuel"
    "\<forall>m\<ge>n. w_merge_f m w_cascade_graph 0 3 = r"
    "\<forall>g'. r = Ok (g', True) \<longrightarrow> w_classCount g' < w_classCount w_cascade_graph \<and> w_worklist g' = []"
    "\<forall>g' t. r = Ok (g', t) \<longrightarrow> uf_inv (w_unionFind g')"
    by blast
  have "w_merge_f (max n 40) w_cascade_graph 0 3 = Ok (g2, True)"
    using le_res_eq[OF w_merge_f_mono, of 40 "max n 40" w_cascade_graph 0 3] m2(1) by simp
  with r(2) have "r = Ok (g2, True)" by (metis max.cobounded1)
  with r(3,4) have "w_worklist g2 = []" "uf_inv (w_unionFind g2)" by blast+
  with i1 i2 c1 c2 m1 u1 m2 show ?thesis by blast
qed

text \<open>
  Claim C1: when the rules equate two terms, their classes are the same after saturation.
  The third rule of \<open>closure_rules\<close> rewrites \<^verbatim>\<open>(f (h c a))\<close> to \<^verbatim>\<open>(h a b)\<close>.
  The driver stops after two sweeps for lack of progress; the ids 3 and 5 of the two terms
  are then their own roots, and adding the two terms again gives ids with the roots 7 and
  3. In the first sweep the merge of \<^verbatim>\<open>b\<close> with \<^verbatim>\<open>a\<close> leaves \<^verbatim>\<open>undefined\<close> as
  the value of \<^verbatim>\<open>hashcons\<close> for \<^verbatim>\<open>h(1, 1)\<close>, so the third rule builds a second
  class for \<^verbatim>\<open>(h a b)\<close> and merges \<^verbatim>\<open>(f (h c a))\<close> with that one.
\<close>

theorem saturation_misses_rewritten_term:
  "(term_pattern (Term ''f'' [Term ''h'' [Term ''c'' [], Term ''a'' []]]),
    term_pattern (Term ''h'' [Term ''a'' [], Term ''b'' []])) \<in> set closure_rules
   \<and> closure_scenario = Ok (True, 3, 5, 7, 3)"
proof
  show "(term_pattern (Term ''f'' [Term ''h'' [Term ''c'' [], Term ''a'' []]]),
    term_pattern (Term ''h'' [Term ''a'' [], Term ''b'' []])) \<in> set closure_rules"
    by (simp add: closure_rules_def)
  show "closure_scenario = Ok (True, 3, 5, 7, 3)"
    by code_simp
qed

text \<open>
  The whole program on the term \<^verbatim>\<open>(g c)\<close> with the rule \<^verbatim>\<open>(g ?x) -> (h ?x ?x)\<close>
  returns the larger of the two terms of the class.
\<close>

lemma equality_saturation_larger_term:
  "equality_saturation 64 (Term ''g'' [Term ''c'' []])
     [(Node ''g'' [Var ''x''], Node ''h'' [Var ''x'', Var ''x''])] 16
   = Ok (XTerm ''h'' [XTerm ''c'' [], XTerm ''c'' []])"
  by code_simp

text \<open>
  Claim C6: when a sweep of all rules leaves \<^verbatim>\<open>classCount\<close> and \<^verbatim>\<open>nodeCount\<close>
  unchanged, one more sweep changes neither. In the run \<open>fixpoint_scenario\<close> the first
  sweep leaves 4 classes and 7 nodes and the second sweep leaves 4 classes and 7 nodes
  again, so the driver stops there for lack of progress; one more sweep from that state
  leaves 3 classes and 6 nodes. In the first sweep \<^verbatim>\<open>repair\<close> meets the two
  parents \<^verbatim>\<open>f(2)\<close> and \<^verbatim>\<open>f(4)\<close> of the class of \<^verbatim>\<open>c\<close>, which have the same
  canonical form, but the first belongs to the class 0 and the test
  \<^verbatim>\<open>if (newParentEid2)\<close> is false for 0, so the two classes stay apart. The second
  sweep merges them, which removes a class and a key of \<^verbatim>\<open>hashcons\<close> and leaves
  \<^verbatim>\<open>undefined\<close> as the value of \<^verbatim>\<open>hashcons\<close> for \<^verbatim>\<open>f(2)\<close>; the third rule then
  builds a new class for \<^verbatim>\<open>(f c)\<close> and a new key \<^verbatim>\<open>h(1, 8)\<close>, so both counts are
  as before. The third sweep merges that new class away.
\<close>

theorem sweep_after_fixed_point_signal:
  "fixpoint_scenario = Ok ((4, 7), (4, 7), True, True, (3, 6))"
  by code_simp

end
